theory Spec2Isabelle
  imports Main "HOL-Library.Sublist"
begin

section \<open>mindl command line driver (cli.go)\<close>

text \<open>
  A shallow embedding of \<^verbatim>\<open>cli.go\<close>: the \<^verbatim>\<open>OptionsFlag\<close> flag type, the normalisation of
  the download directory, and the control flow of \<^verbatim>\<open>main\<close> and \<^verbatim>\<open>startDownloading\<close>.
  Go strings are byte sequences and are modelled as \<open>string\<close> (a list of \<open>char\<close>).
\<close>

subsection \<open>The Go library functions used by cli.go\<close>

text \<open>\<^verbatim>\<open>strings.Index(s, sep)\<close>: the position of the first occurrence of \<open>sep\<close> in \<open>s\<close>;
  Go's \<open>-1\<close> is \<open>None\<close>.\<close>

fun Index :: "string \<Rightarrow> string \<Rightarrow> nat option" where
  "Index s sep =
     (if prefix sep s then Some 0
      else case s of [] \<Rightarrow> None | c # cs \<Rightarrow> map_option Suc (Index cs sep))"

declare Index.simps [simp del]

text \<open>\<^verbatim>\<open>strings.SplitN(s, sep, n)\<close> for a non-empty separator and \<open>n \<ge> 0\<close>: at most \<open>n\<close>
  substrings, the last one the unsplit remainder; \<open>n = 0\<close> gives the empty result.\<close>

fun SplitN :: "string \<Rightarrow> string \<Rightarrow> nat \<Rightarrow> string list" where
  "SplitN s sep 0 = []"
| "SplitN s sep (Suc 0) = [s]"
| "SplitN s sep (Suc (Suc k)) =
     (case Index s sep of
        None \<Rightarrow> [s]
      | Some m \<Rightarrow> take m s # SplitN (drop (m + length sep) s) sep (Suc k))"

text \<open>\<^verbatim>\<open>strings.HasSuffix\<close> and \<^verbatim>\<open>strings.TrimSuffix\<close>: the suffix is removed once, if
  present.\<close>

definition HasSuffix :: "string \<Rightarrow> string \<Rightarrow> bool" where
  "HasSuffix s suf \<longleftrightarrow>
     length s \<ge> length suf \<and> drop (length s - length suf) s = suf"

definition TrimSuffix :: "string \<Rightarrow> string \<Rightarrow> string" where
  "TrimSuffix s suf = (if HasSuffix s suf then take (length s - length suf) s else s)"

text \<open>\<^verbatim>\<open>filepath.FromSlash(path)\<close>: every slash becomes the separator; the identity when
  the separator is the slash. \<open>sep\<close> is \<^verbatim>\<open>os.PathSeparator\<close>, a constant of the platform.\<close>

definition FromSlash :: "char \<Rightarrow> string \<Rightarrow> string" where
  "FromSlash sep path =
     (if sep = CHR ''/'' then path
      else map (\<lambda>c. if c = CHR ''/'' then sep else c) path)"

subsection \<open>OptionsFlag\<close>

text \<open>The error values. \<^verbatim>\<open>ErrInvalidOptionFormat\<close> is declared in cli.go. The others
  come from code outside cli.go and are named after the failures section 4.1 and 4.2 of
  the specification list: no handler in the candidate set, an interactive choice out of
  range, a required option (named by its key) left unresolved, and a failure returned by
  a download.\<close>

datatype error =
    ErrInvalidOptionFormat
  | ErrNoHandler
  | ErrInput
  | ErrConfig string
  | ErrDownload string

text \<open>\<^verbatim>\<open>type OptionsFlag map[string]string\<close>; \<open>None\<close> is the nil map the flag starts as.\<close>

type_synonym OptionsFlag = "(string \<rightharpoonup> string) option"

text \<open>Reading a Go map, nil or not: a nil map has no keys.\<close>

definition lookup :: "OptionsFlag \<Rightarrow> string \<Rightarrow> string option" where
  "lookup opt k = (case opt of None \<Rightarrow> None | Some m \<Rightarrow> m k)"

text \<open>\<^verbatim>\<open>func (opt *OptionsFlag) Set(v string) error\<close>: the returned error (\<open>None\<close> is nil)
  and the flag's map after the call.\<close>

definition Set :: "OptionsFlag \<Rightarrow> string \<Rightarrow> error option \<times> OptionsFlag" where
  "Set opt v =
     (let split = SplitN v ''='' 2 in
      if length split < 2 then (Some ErrInvalidOptionFormat, opt)
      else
        let m = (case opt of None \<Rightarrow> Map.empty | Some m \<Rightarrow> m)
        in (None, Some (m(split ! 0 \<mapsto> split ! 1))))"

subsection \<open>The download directory\<close>

text \<open>Line 126 of \<^verbatim>\<open>main\<close>:
  \<^verbatim>\<open>dldir = strings.TrimSuffix(filepath.FromSlash(dldir), string(os.PathSeparator)) + string(os.PathSeparator)\<close>\<close>

definition normalize_dldir :: "char \<Rightarrow> string \<Rightarrow> string" where
  "normalize_dldir sep s = TrimSuffix (FromSlash sep s) [sep] @ [sep]"

subsection \<open>Handlers and the plugin manager\<close>

type_synonym url = string
type_synonym config = "string \<rightharpoonup> string"

text \<open>Modelled from the spec: the plugins package is not in cli.go. An option descriptor
  is, by section 6, \<^verbatim>\<open>{key, description, default?, required: bool}\<close>.\<close>

record option_desc =
  opt_key :: string
  opt_description :: string
  opt_default :: "string option"
  opt_required :: bool

text \<open>Modelled from the spec: the handler capability contract of section 6: the name
  (read by \<^verbatim>\<open>pluginName\<close>), \<^verbatim>\<open>claims(url)\<close>, \<^verbatim>\<open>declaredOptions()\<close> and
  \<^verbatim>\<open>concurrencyCeiling()\<close> (absence means no ceiling).\<close>

record plugin =
  pluginName :: string
  claims :: "url \<Rightarrow> bool"
  declaredOptions :: "option_desc list"
  concurrencyCeiling :: "int option"

text \<open>Modelled from the spec: the option negotiator of section 4.2, which is not in
  cli.go, for one declared option. The steps are the four of section 4.2 in their
  order; the result is the value bound to the key (\<open>None\<close>: left absent) or the
  configuration error naming the key. \<open>ask k\<close> is the value entered at the prompt for
  key \<open>k\<close>; what happens to an empty entry for a required option is not specified, so
  \<open>ask\<close> stands for the entry that is accepted.\<close>

definition negotiate_option ::
  "(string \<rightharpoonup> string) \<Rightarrow> bool \<Rightarrow> bool \<Rightarrow> (string \<Rightarrow> string) \<Rightarrow> option_desc
     \<Rightarrow> error + string option" where
  "negotiate_option overrides useDefaults noPrompt ask d =
     (case overrides (opt_key d) of
        Some v \<Rightarrow> Inr (Some v)
      | None \<Rightarrow>
          if useDefaults \<and> opt_default d \<noteq> None then Inr (opt_default d)
          else if opt_required d then
            (if noPrompt then Inl (ErrConfig (opt_key d))
             else Inr (Some (ask (opt_key d))))
          else Inr None)"

text \<open>Modelled from the spec: the negotiator over the declared options of one handler,
  in their declared order, building the configuration bundle; it stops at the first
  option that fails.\<close>

fun negotiate ::
  "(string \<rightharpoonup> string) \<Rightarrow> bool \<Rightarrow> bool \<Rightarrow> (string \<Rightarrow> string) \<Rightarrow> config
     \<Rightarrow> option_desc list \<Rightarrow> error + config" where
  "negotiate overrides useDefaults noPrompt ask b [] = Inr b"
| "negotiate overrides useDefaults noPrompt ask b (d # ds) =
     (case negotiate_option overrides useDefaults noPrompt ask d of
        Inl e \<Rightarrow> Inl e
      | Inr None \<Rightarrow> negotiate overrides useDefaults noPrompt ask b ds
      | Inr (Some v) \<Rightarrow>
          negotiate overrides useDefaults noPrompt ask (b(opt_key d \<mapsto> v)) ds)"

subsection \<open>What cli.go takes from outside, and what it does to the outside\<close>

text \<open>What a call of \<^verbatim>\<open>dm.Download\<close> does, seen from \<^verbatim>\<open>startDownloading\<close>: it returns the
  downloads, returns an error, or panics. \<open>Panic v\<close> carries the value that \<^verbatim>\<open>recover()\<close>
  returns for the panic: \<open>Some r\<close> for a value that is not nil, \<open>None\<close> for nil, which is what
  \<^verbatim>\<open>panic(nil)\<close> gives under the Go versions before 1.21.\<close>

datatype dl_result =
    Downloads "string list"
  | DownloadError error
  | Panic "string option"

text \<open>Everything cli.go uses without defining it: the plugin registry \<^verbatim>\<open>Plugins\<close>,
  \<^verbatim>\<open>os.PathSeparator\<close>, the version string set at compilation, the console (the value
  entered for an option of a handler, the index entered when several handlers are
  offered) and the behaviour of \<^verbatim>\<open>Download\<close> for a handler, download directory, bound
  bundle, URL, worker count, zip flag and override flag. The console and the downloads
  are taken to be functions of what they are asked.\<close>

record env =
  Plugins :: "plugin list"
  PathSeparator :: char
  version :: string
  ask :: "string \<Rightarrow> string \<Rightarrow> string"
  pick :: "plugin list \<Rightarrow> int"
  Download :: "plugin \<Rightarrow> string \<Rightarrow> config option \<Rightarrow> url \<Rightarrow> int \<Rightarrow> bool \<Rightarrow> bool \<Rightarrow> dl_result"

text \<open>The package-level variables that \<^verbatim>\<open>flag.Parse()\<close> fills (lines 85 to 91); \<open>args\<close> is
  \<^verbatim>\<open>flag.Args()\<close>, the URLs.\<close>

record flags =
  options :: OptionsFlag
  workers :: int
  verbose :: bool
  defaults :: bool
  noprompt :: bool
  zipit :: bool
  printVersion :: bool
  override :: bool
  dldir :: string
  args :: "url list"

datatype level = InfoLevel | ErrorLevel | FatalLevel

datatype msg =
    FoundNoHandler url
  | ProcessingURL url
  | StartingDownload string
  | DoneTotal nat
  | Panicked string
  | ErrorValue error

text \<open>The observable actions, in the order they happen. \<open>CallSetOptions\<close>,
  \<open>CallSelectPlugin\<close> and \<open>CallDownload\<close> mark the calls of lines 141, 151 and 194;
  \<open>CallDownload\<close> carries the handler and the bundle bound to it at that moment.
  \<open>StopReporter\<close> is the deferred \<^verbatim>\<open>ticker.Stop(); done <- struct{}{}\<close> and \<open>ReleaseLine\<close>
  the deferred \<^verbatim>\<open>lr.Release()\<close>. The ticks of the reporter goroutine are not modelled.\<close>

datatype event =
    Println string
  | Usage
  | Log level msg
  | CallSetOptions url
  | CallSelectPlugin url
  | CallDownload url plugin "config option"
  | StopReporter
  | ReleaseLine

text \<open>The state cli.go acts on: the actions so far, and for each handler instance the
  configuration bundle bound to it (\<open>None\<close>: not negotiated yet). Handlers are created
  once and shared by all URLs, so the bundles are a store indexed by the handler.\<close>

record state =
  trace :: "event list"
  bundles :: "plugin \<Rightarrow> config option"

definition init :: state where
  "init = \<lparr>trace = [], bundles = (\<lambda>p. None)\<rparr>"

definition emit :: "event \<Rightarrow> state \<Rightarrow> state" where
  "emit e st = st\<lparr>trace := trace st @ [e]\<rparr>"

text \<open>Modelled from the spec: the logger package is not in cli.go. \<^verbatim>\<open>Infof\<close>, \<^verbatim>\<open>Error\<close>
  and \<^verbatim>\<open>Errorf\<close> write a message and return. \<^verbatim>\<open>Fatal\<close> and \<^verbatim>\<open>Fatalf\<close> write the message
  and end the process with status 1, as Go's loggers do and as section 4.1 reads the
  \<^verbatim>\<open>log.Fatal(err)\<close> of line 142 (``fails fatally for the whole run''). \<open>Exited c\<close> says
  that the process has ended with status \<open>c\<close>; \<open>Continue\<close> that control goes on.\<close>

datatype status = Continue | Exited nat

text \<open>Modelled from the spec: \<^verbatim>\<open>PluginManager.FindHandlers\<close> is not in cli.go. Section
  4.1: for each URL the handlers whose claim predicate matches it, in registry order.\<close>

definition FindHandlers :: "plugin list \<Rightarrow> url list \<Rightarrow> plugin list list" where
  "FindHandlers pm urls = map (\<lambda>u. filter (\<lambda>p. claims p u) pm) urls"

text \<open>Modelled from the spec: \<^verbatim>\<open>PluginManager.SetOptions\<close> is not in cli.go. Section 4.1:
  for every handler of the candidate set the negotiator finalises its bundle, which is
  bound to the handler; it fails if negotiation fails for any candidate.\<close>

fun SetOptions ::
  "env \<Rightarrow> plugin list \<Rightarrow> (string \<rightharpoonup> string) \<Rightarrow> bool \<Rightarrow> bool \<Rightarrow> state
     \<Rightarrow> error option \<times> state" where
  "SetOptions io [] overrides useDefaults noPrompt st = (None, st)"
| "SetOptions io (p # ps) overrides useDefaults noPrompt st =
     (case negotiate overrides useDefaults noPrompt (ask io (pluginName p)) Map.empty
             (declaredOptions p) of
        Inl e \<Rightarrow> (Some e, st)
      | Inr b \<Rightarrow>
          SetOptions io ps overrides useDefaults noPrompt
            (st\<lparr>bundles := (bundles st)(p := Some b)\<rparr>))"

text \<open>Modelled from the spec: \<^verbatim>\<open>PluginManager.SelectPlugin\<close> is not in cli.go. Section
  4.1: one candidate is returned without interaction; with more than one the user
  enters an index, and a choice out of range is an input error; an empty candidate set
  fails with ``no handler''. The specification does not say where the indices start;
  here they are the positions \<open>0, \<dots>, length h - 1\<close> of the candidate list.\<close>

definition SelectPlugin :: "env \<Rightarrow> plugin list \<Rightarrow> error + plugin" where
  "SelectPlugin io h =
     (if length h = 0 then Inl ErrNoHandler
      else if length h = 1 then Inr (h ! 0)
      else
        let i = pick io h
        in if 0 \<le> i \<and> i < int (length h) then Inr (h ! nat i) else Inl ErrInput)"

subsection \<open>startDownloading and main\<close>

text \<open>\<^verbatim>\<open>startDownloading\<close> (lines 164 to 200). The deferred functions run in the reverse
  order of their registration when the function returns or panics: first the stop of
  the reporter, then the release of the line, then the function of lines 167 to 171.
  Its \<^verbatim>\<open>recover()\<close> ends a panic; when the recovered value \<open>r\<close> is not nil it calls
  \<^verbatim>\<open>log.Fatalf\<close>, and when it is nil it does nothing, so that \<^verbatim>\<open>startDownloading\<close> returns
  to \<^verbatim>\<open>main\<close>.\<close>

definition startDownloading :: "env \<Rightarrow> flags \<Rightarrow> url \<Rightarrow> plugin \<Rightarrow> state \<Rightarrow> status \<times> state" where
  "startDownloading io fl u p st =
     (let st1 = emit (CallDownload u p (bundles st p)) st
      in case Download io p (dldir fl) (bundles st p) u (workers fl) (zipit fl) (override fl) of
           Downloads dls \<Rightarrow>
             (Continue,
              emit ReleaseLine (emit StopReporter
                (emit (Log InfoLevel (DoneTotal (length dls))) st1)))
         | DownloadError err \<Rightarrow>
             (Continue,
              emit ReleaseLine (emit StopReporter
                (emit (Log ErrorLevel (ErrorValue err)) st1)))
         | Panic v \<Rightarrow>
             (let st2 = emit ReleaseLine (emit StopReporter st1)
              in case v of
                   Some r \<Rightarrow> (Exited 1, emit (Log FatalLevel (Panicked r)) st2)
                 | None \<Rightarrow> (Continue, st2)))"

text \<open>The first loop of \<^verbatim>\<open>main\<close> (lines 135 to 144), over the URLs paired with their
  candidate sets.\<close>

fun negotiate_all :: "env \<Rightarrow> flags \<Rightarrow> (url \<times> plugin list) list \<Rightarrow> state \<Rightarrow> status \<times> state" where
  "negotiate_all io fl [] st = (Continue, st)"
| "negotiate_all io fl ((u, h) # rest) st =
     (let st1 = (if length h = 0 then emit (Log ErrorLevel (FoundNoHandler u)) st else st)
      in case SetOptions io h (lookup (options fl)) (defaults fl) (noprompt fl)
                (emit (CallSetOptions u) st1) of
           (Some err, st2) \<Rightarrow> (Exited 1, emit (Log FatalLevel (ErrorValue err)) st2)
         | (None, st2) \<Rightarrow> negotiate_all io fl rest st2)"

text \<open>The second loop of \<^verbatim>\<open>main\<close> (lines 147 to 161); \<open>n\<close> is \<^verbatim>\<open>len(urls)\<close>.\<close>

fun download_all ::
  "env \<Rightarrow> flags \<Rightarrow> nat \<Rightarrow> (url \<times> plugin list) list \<Rightarrow> state \<Rightarrow> status \<times> state" where
  "download_all io fl n [] st = (Continue, st)"
| "download_all io fl n ((u, h) # rest) st =
     (case SelectPlugin io h of
        Inl err \<Rightarrow>
          (Exited 1, emit (Log FatalLevel (ErrorValue err)) (emit (CallSelectPlugin u) st))
      | Inr p \<Rightarrow>
          (let st1 = emit (CallSelectPlugin u) st;
               st2 = (if n > 1 then emit (Log InfoLevel (ProcessingURL u)) st1 else st1);
               st3 = emit (Log InfoLevel (StartingDownload (pluginName p))) st2
           in case startDownloading io fl u p st3 of
                (Exited c, st4) \<Rightarrow> (Exited c, st4)
              | (Continue, st4) \<Rightarrow> download_all io fl n rest st4))"

text \<open>\<^verbatim>\<open>main\<close> (lines 116 to 162). \<^verbatim>\<open>logger.Verbose\<close> only sets the level of the debug
  messages and is left out. Falling off the end of \<^verbatim>\<open>main\<close> is \<open>Continue\<close>.\<close>

definition main :: "env \<Rightarrow> flags \<Rightarrow> status \<times> state" where
  "main io fl0 =
     (if printVersion fl0 then (Exited 0, emit (Println (version io)) init)
      else
        let urls = args fl0;
            fl = fl0\<lparr>dldir := normalize_dldir (PathSeparator io) (dldir fl0)\<rparr>
        in if length urls = 0 then (Exited 0, emit Usage init)
           else
             let handlers = FindHandlers (Plugins io) urls
             in case negotiate_all io fl (zip urls handlers) init of
                  (Exited c, st) \<Rightarrow> (Exited c, st)
                | (Continue, st) \<Rightarrow> download_all io fl (length urls) (zip urls handlers) st)"

subsection \<open>Notions used in the statements\<close>

text \<open>The actions of the second loop: a selection or a call of \<^verbatim>\<open>Download\<close>.\<close>

fun is_run :: "event \<Rightarrow> bool" where
  "is_run (CallSelectPlugin u) = True"
| "is_run (CallDownload u p b) = True"
| "is_run e = False"

fun is_SetOptions :: "event \<Rightarrow> bool" where
  "is_SetOptions (CallSetOptions u) = True"
| "is_SetOptions e = False"

fun is_Fatal :: "event \<Rightarrow> bool" where
  "is_Fatal (Log FatalLevel m) = True"
| "is_Fatal e = False"

text \<open>The URLs on which \<^verbatim>\<open>Download\<close> was called, in the order of the calls.\<close>

fun download_url :: "event \<Rightarrow> url list" where
  "download_url (CallDownload u p b) = [u]"
| "download_url e = []"

definition downloaded :: "event list \<Rightarrow> url list" where
  "downloaded evs = concat (map download_url evs)"

text \<open>A bundle is fully resolved for a handler when every required option of the
  handler is bound in it.\<close>

definition resolved :: "plugin \<Rightarrow> config \<Rightarrow> bool" where
  "resolved p c \<longleftrightarrow> list_all (\<lambda>d. opt_required d \<longrightarrow> c (opt_key d) \<noteq> None) (declaredOptions p)"

text \<open>The negotiation \<^verbatim>\<open>main\<close> asks for on behalf of one handler: the overrides are the
  \<^verbatim>\<open>-o\<close> options, and the two policies are the \<^verbatim>\<open>--defaults\<close> and \<^verbatim>\<open>--no-prompt\<close> flags.\<close>

definition negotiated :: "env \<Rightarrow> flags \<Rightarrow> plugin \<Rightarrow> error + config" where
  "negotiated io fl p =
     negotiate (lookup (options fl)) (defaults fl) (noprompt fl) (ask io (pluginName p))
       Map.empty (declaredOptions p)"

text \<open>The flags as \<^verbatim>\<open>main\<close> uses them after line 126, and the URLs paired with the
  candidate sets that \<^verbatim>\<open>FindHandlers\<close> returned for them (line 134), over which both
  loops run.\<close>

definition parsed :: "env \<Rightarrow> flags \<Rightarrow> flags" where
  "parsed io fl = fl\<lparr>dldir := normalize_dldir (PathSeparator io) (dldir fl)\<rparr>"

definition candidates :: "env \<Rightarrow> flags \<Rightarrow> (url \<times> plugin list) list" where
  "candidates io fl = zip (args fl) (FindHandlers (Plugins io) (args fl))"

text \<open>The actions of one iteration of the second loop in which the selection returned
  handler \<open>p\<close>, as a list: a restatement of the loop body and of \<^verbatim>\<open>startDownloading\<close> that
  the proofs compare with \<open>download_all\<close>. \<open>bs\<close> is the store of bundles; \<open>panics\<close> says that
  the \<^verbatim>\<open>Download\<close> call of the iteration panics with a value that is not nil, the one
  case in which the iteration ends the process.\<close>

definition panics :: "env \<Rightarrow> flags \<Rightarrow> (plugin \<Rightarrow> config option) \<Rightarrow> url \<Rightarrow> plugin \<Rightarrow> bool" where
  "panics io fl bs u p =
     (case Download io p (dldir fl) (bs p) u (workers fl) (zipit fl) (override fl) of
        Panic (Some r) \<Rightarrow> True
      | _ \<Rightarrow> False)"

definition run_events ::
  "env \<Rightarrow> flags \<Rightarrow> nat \<Rightarrow> (plugin \<Rightarrow> config option) \<Rightarrow> url \<Rightarrow> plugin \<Rightarrow> event list" where
  "run_events io fl n bs u p =
     [CallSelectPlugin u] @
     (if n > 1 then [Log InfoLevel (ProcessingURL u)] else []) @
     [Log InfoLevel (StartingDownload (pluginName p)), CallDownload u p (bs p)] @
     (case Download io p (dldir fl) (bs p) u (workers fl) (zipit fl) (override fl) of
        Downloads dls \<Rightarrow> [Log InfoLevel (DoneTotal (length dls)), StopReporter, ReleaseLine]
      | DownloadError err \<Rightarrow> [Log ErrorLevel (ErrorValue err), StopReporter, ReleaseLine]
      | Panic None \<Rightarrow> [StopReporter, ReleaseLine]
      | Panic (Some r) \<Rightarrow> [StopReporter, ReleaseLine, Log FatalLevel (Panicked r)])"

text \<open>The actions of one iteration of the first loop up to and including the call of
  \<^verbatim>\<open>SetOptions\<close> for the URL and candidate set \<open>z\<close> (lines 137 to 141).\<close>

definition negotiation_events :: "url \<times> plugin list \<Rightarrow> event list" where
  "negotiation_events z =
     (if length (snd z) = 0 then [Log ErrorLevel (FoundNoHandler (fst z))] else []) @
     [CallSetOptions (fst z)]"

text \<open>The URLs for which \<^verbatim>\<open>SetOptions\<close> was called, in the order of the calls.\<close>

fun SetOptions_url :: "event \<Rightarrow> url list" where
  "SetOptions_url (CallSetOptions u) = [u]"
| "SetOptions_url e = []"

definition negotiated_urls :: "event list \<Rightarrow> url list" where
  "negotiated_urls evs = concat (map SetOptions_url evs)"

definition failing :: "env \<Rightarrow> flags \<Rightarrow> plugin \<Rightarrow> bool" where
  "failing io fl p \<longleftrightarrow> isl (negotiated io fl p)"

text \<open>A candidate set without a failing handler: \<^verbatim>\<open>SetOptions\<close> returns no error for it.\<close>

definition negotiable :: "env \<Rightarrow> flags \<Rightarrow> url \<times> plugin list \<Rightarrow> bool" where
  "negotiable io fl z \<longleftrightarrow> filter (failing io fl) (snd z) = []"

text \<open>A call of \<^verbatim>\<open>Download\<close> is made with the negotiated bundle when the bundle bound to
  its handler at the call is the one the negotiation of that handler yields, and that
  bundle is fully resolved.\<close>

fun bound_call :: "env \<Rightarrow> flags \<Rightarrow> event \<Rightarrow> bool" where
  "bound_call io fl (CallDownload u p b) =
     (case b of None \<Rightarrow> False | Some c \<Rightarrow> negotiated io fl p = Inr c \<and> resolved p c)"
| "bound_call io fl e = True"

text \<open>An option that steps 1 and 2 of section 4.2 leave unbound although it is required:
  no override for its key, and no default that the defaults flag makes usable.\<close>

definition unresolved :: "(string \<rightharpoonup> string) \<Rightarrow> bool \<Rightarrow> option_desc \<Rightarrow> bool" where
  "unresolved overrides useDefaults d \<longleftrightarrow>
     overrides (opt_key d) = None \<and> \<not> (useDefaults \<and> opt_default d \<noteq> None) \<and> opt_required d"

subsection \<open>Example handlers, consoles and command lines\<close>

text \<open>The options of the end-to-end scenario of section 8 of the specification: a
  required \<open>user\<close> without default, and an optional \<open>quality\<close> with default \<open>high\<close>.\<close>

definition opt_user :: option_desc where
  "opt_user = \<lparr>opt_key = ''user'', opt_description = ''account name'',
                opt_default = None, opt_required = True\<rparr>"

definition opt_quality :: option_desc where
  "opt_quality = \<lparr>opt_key = ''quality'', opt_description = ''image quality'',
                   opt_default = Some ''high'', opt_required = False\<rparr>"

definition opt_token :: option_desc where
  "opt_token = \<lparr>opt_key = ''token'', opt_description = ''access token'',
                 opt_default = None, opt_required = True\<rparr>"

text \<open>Two handlers that both claim the URLs starting with \<open>a:\<close>, and one that claims the
  URLs starting with \<open>b:\<close>, declares the options above and runs serially.\<close>

definition site_a :: plugin where
  "site_a = \<lparr>pluginName = ''site-a'', claims = prefix ''a:'', declaredOptions = [],
              concurrencyCeiling = None\<rparr>"

definition mirror_a :: plugin where
  "mirror_a = \<lparr>pluginName = ''mirror-a'', claims = prefix ''a:'', declaredOptions = [],
                concurrencyCeiling = None\<rparr>"

definition site_b :: plugin where
  "site_b = \<lparr>pluginName = ''site-b'', claims = prefix ''b:'',
              declaredOptions = [opt_user, opt_quality, opt_token],
              concurrencyCeiling = Some 1\<rparr>"

text \<open>A console at which every option prompt is answered \<open>typed\<close>, and a download that
  panics with a value on the URL \<open>a:boom\<close>, panics with nil on \<open>a:nil\<close>, fails on \<open>a:gone\<close>
  and otherwise saves one file; \<open>fetch_nil\<close> is a download whose only panic is the one
  with nil.\<close>

definition typed :: "string \<Rightarrow> string \<Rightarrow> string" where
  "typed name k = ''typed''"

definition fetch ::
  "plugin \<Rightarrow> string \<Rightarrow> config option \<Rightarrow> url \<Rightarrow> int \<Rightarrow> bool \<Rightarrow> bool \<Rightarrow> dl_result" where
  "fetch p dir b u w z ov =
     (if u = ''a:boom'' then Panic (Some ''boom'')
      else if u = ''a:nil'' then Panic None
      else if u = ''a:gone'' then DownloadError (ErrDownload ''gone'')
      else Downloads [dir @ u])"

definition fetch_nil ::
  "plugin \<Rightarrow> string \<Rightarrow> config option \<Rightarrow> url \<Rightarrow> int \<Rightarrow> bool \<Rightarrow> bool \<Rightarrow> dl_result" where
  "fetch_nil p dir b u w z ov =
     (if u = ''a:nil'' then Panic None else Downloads [dir @ u])"

definition first_choice :: "plugin list \<Rightarrow> int" where
  "first_choice h = 0"

definition wrong_choice :: "plugin list \<Rightarrow> int" where
  "wrong_choice h = 7"

definition console :: env where
  "console = \<lparr>Plugins = [site_a, mirror_a, site_b], PathSeparator = CHR ''/'',
               version = ''1.0'', ask = typed, pick = first_choice, Download = fetch\<rparr>"

definition quiet :: env where
  "quiet = \<lparr>Plugins = [site_a, mirror_a, site_b], PathSeparator = CHR ''/'',
             version = ''1.0'', ask = typed, pick = first_choice, Download = fetch_nil\<rparr>"

definition clumsy :: env where
  "clumsy = \<lparr>Plugins = [site_a, mirror_a, site_b], PathSeparator = CHR ''/'',
              version = ''1.0'', ask = typed, pick = wrong_choice, Download = fetch\<rparr>"

text \<open>The command line \<^verbatim>\<open>mindl url ...\<close> with every flag at its default, and the same with
  \<^verbatim>\<open>--no-prompt\<close>.\<close>

definition cmdline :: "url list \<Rightarrow> flags" where
  "cmdline urls = \<lparr>options = None, workers = 10, verbose = False, defaults = False,
                    noprompt = False, zipit = False, printVersion = False,
                    override = False, dldir = ''downloads/'', args = urls\<rparr>"

definition cmdline_n :: "url list \<Rightarrow> flags" where
  "cmdline_n urls = \<lparr>options = None, workers = 10, verbose = False, defaults = False,
                      noprompt = True, zipit = False, printVersion = False,
                      override = False, dldir = ''downloads/'', args = urls\<rparr>"

section \<open>Properties\<close>

subsection \<open>Splitting at the first equals sign\<close>

lemma Index_eq_None: "Index v ''='' = None \<longleftrightarrow> CHR ''='' \<notin> set v"
proof (induction v)
  case Nil
  show ?case by (simp add: Index.simps [of "[]"])
next
  case (Cons c cs)
  then show ?case by (simp add: Index.simps [of "c # cs"])
qed

lemma Index_eq_Some:
  "Index v ''='' = Some m \<Longrightarrow>
     take m v = takeWhile (\<lambda>c. c \<noteq> CHR ''='') v \<and>
     drop (m + 1) v = tl (dropWhile (\<lambda>c. c \<noteq> CHR ''='') v)"
proof (induction v arbitrary: m)
  case Nil
  then show ?case by (simp add: Index.simps [of "[]"])
next
  case (Cons c cs)
  show ?case
  proof (cases "c = CHR ''=''")
    case True
    with Cons.prems show ?thesis by (simp add: Index.simps [of "_ # cs"])
  next
    case False
    with Cons.prems obtain k where k: "Index cs ''='' = Some k" "m = Suc k"
      by (auto simp: Index.simps [of "c # cs"])
    from Cons.IH [OF k(1)] k(2) False show ?thesis by simp
  qed
qed

lemma SplitN_no_eq: "CHR ''='' \<notin> set v \<Longrightarrow> SplitN v ''='' 2 = [v]"
  using Index_eq_None [of v] by (simp add: numeral_2_eq_2)

lemma SplitN_eq:
  "CHR ''='' \<in> set v \<Longrightarrow>
     SplitN v ''='' 2 =
       [takeWhile (\<lambda>c. c \<noteq> CHR ''='') v, tl (dropWhile (\<lambda>c. c \<noteq> CHR ''='') v)]"
proof -
  assume "CHR ''='' \<in> set v"
  then obtain m where m: "Index v ''='' = Some m"
    using Index_eq_None [of v] by (cases "Index v ''=''") auto
  from Index_eq_Some [OF m] m show ?thesis by (simp add: numeral_2_eq_2)
qed

text \<open>
  Claim C9. \<^verbatim>\<open>OptionsFlag.Set(v)\<close> returns \<^verbatim>\<open>ErrInvalidOptionFormat\<close> exactly when \<open>v\<close>
  contains no equals sign, and then leaves the map as it was. Otherwise it returns nil,
  and in the map after the call the key is the part of \<open>v\<close> before the first equals sign,
  bound to everything after that first equals sign (further equals signs stay in the
  value); every other key reads as it did before the call.
\<close>

theorem Set_spec:
  "(fst (Set opt v) = Some ErrInvalidOptionFormat \<longleftrightarrow> CHR ''='' \<notin> set v) \<and>
   (if CHR ''='' \<in> set v
    then fst (Set opt v) = None \<and>
         lookup (snd (Set opt v)) k =
           (if k = takeWhile (\<lambda>c. c \<noteq> CHR ''='') v
            then Some (tl (dropWhile (\<lambda>c. c \<noteq> CHR ''='') v))
            else lookup opt k)
    else Set opt v = (Some ErrInvalidOptionFormat, opt))"
proof (cases "CHR ''='' \<in> set v")
  case True
  from SplitN_eq [OF True] show ?thesis
    using True by (simp add: Set_def lookup_def split: option.splits)
next
  case False
  from SplitN_no_eq [OF False] show ?thesis
    using False by (simp add: Set_def)
qed

theorem Set_spec_witness:
  "fst (Set (Some [''a'' \<mapsto> ''0'', ''q'' \<mapsto> ''1'']) ''a=b=c'') = None \<and>
   lookup (snd (Set (Some [''a'' \<mapsto> ''0'', ''q'' \<mapsto> ''1'']) ''a=b=c'')) ''a'' = Some ''b=c'' \<and>
   lookup (snd (Set (Some [''a'' \<mapsto> ''0'', ''q'' \<mapsto> ''1'']) ''a=b=c'')) ''q'' = Some ''1'' \<and>
   Set None ''abc'' = (Some ErrInvalidOptionFormat, None)"
  using Set_spec [of "Some [''a'' \<mapsto> ''0'', ''q'' \<mapsto> ''1'']" "''a=b=c''" "''a''"]
    Set_spec [of "Some [''a'' \<mapsto> ''0'', ''q'' \<mapsto> ''1'']" "''a=b=c''" "''q''"]
    Set_spec [of None "''abc''" "''a''"]
  by (simp add: lookup_def)

subsection \<open>The download directory ends in one separator, and normalising twice changes nothing\<close>

lemma TrimSuffix_snoc: "TrimSuffix (t @ [c]) [c] = t"
  by (simp add: TrimSuffix_def HasSuffix_def)

lemma FromSlash_idem: "FromSlash sep (FromSlash sep s) = FromSlash sep s"
  by (simp add: FromSlash_def)

lemma FromSlash_take: "FromSlash sep (take n s) = take n (FromSlash sep s)"
  by (simp add: FromSlash_def take_map)

lemma FromSlash_append: "FromSlash sep (s @ t) = FromSlash sep s @ FromSlash sep t"
  by (simp add: FromSlash_def)

lemma FromSlash_sep: "FromSlash sep [sep] = [sep]"
  by (simp add: FromSlash_def)

lemma FromSlash_TrimSuffix:
  "FromSlash sep (TrimSuffix (FromSlash sep s) suf) = TrimSuffix (FromSlash sep s) suf"
  by (simp add: TrimSuffix_def FromSlash_take FromSlash_idem)

text \<open>
  Claim C10. For every path separator and every string \<open>s\<close>, the normalised download
  directory \<open>n(s) = TrimSuffix(FromSlash(s), sep) + sep\<close> ends in the separator, and
  \<open>n(n(s)) = n(s)\<close>.
\<close>

theorem normalize_dldir_idem:
  "HasSuffix (normalize_dldir sep s) [sep] \<and>
   normalize_dldir sep (normalize_dldir sep s) = normalize_dldir sep s"
proof -
  have "HasSuffix (normalize_dldir sep s) [sep]"
    by (simp add: normalize_dldir_def HasSuffix_def)
  moreover have "normalize_dldir sep (normalize_dldir sep s) = normalize_dldir sep s"
    by (simp add: normalize_dldir_def FromSlash_append FromSlash_sep
        FromSlash_TrimSuffix TrimSuffix_snoc)
  ultimately show ?thesis by simp
qed

theorem normalize_dldir_idem_witness:
  "normalize_dldir (CHR ''/'') ''downloads//'' = ''downloads//'' \<and>
   normalize_dldir (CHR 0x5C) ''a/b'' = [CHR ''a'', CHR 0x5C, CHR ''b'', CHR 0x5C] \<and>
   normalize_dldir (CHR ''/'') (normalize_dldir (CHR ''/'') ''downloads'') = ''downloads/''"
  using normalize_dldir_idem [of "CHR ''/''" "''downloads''"]
  by (simp add: normalize_dldir_def TrimSuffix_def HasSuffix_def FromSlash_def)

subsection \<open>The URLs that were downloaded\<close>

lemma downloaded_append [simp]: "downloaded (a @ b) = downloaded a @ downloaded b"
  by (simp add: downloaded_def)

lemma downloaded_Nil [simp]: "downloaded [] = []"
  by (simp add: downloaded_def)

lemma downloaded_Cons [simp]: "downloaded (e # es) = download_url e @ downloaded es"
  by (simp add: downloaded_def)

lemma not_run_downloaded: "\<forall>e\<in>set evs. \<not> is_run e \<Longrightarrow> downloaded evs = []"
proof (induction evs)
  case Nil
  show ?case by simp
next
  case (Cons e es)
  then show ?case by (cases e) auto
qed

subsection \<open>The option negotiator\<close>

lemma negotiate_dom:
  "negotiate ov ud np a b ds = Inr c \<Longrightarrow> k \<in> dom b \<Longrightarrow> k \<in> dom c"
proof (induction ds arbitrary: b)
  case Nil
  then show ?case by simp
next
  case (Cons d ds)
  show ?case
  proof (cases "negotiate_option ov ud np a d")
    case (Inl e)
    with Cons.prems show ?thesis by simp
  next
    case (Inr r)
    show ?thesis
    proof (cases r)
      case None
      with Inr Cons.prems Cons.IH [of b] show ?thesis by simp
    next
      case (Some v)
      from Cons.prems(2) have kd: "k \<in> dom (b(opt_key d \<mapsto> v))" by auto
      from Cons.prems(1) Inr Some
      have n: "negotiate ov ud np a (b(opt_key d \<mapsto> v)) ds = Inr c" by simp
      from Cons.IH [OF n kd] show ?thesis .
    qed
  qed
qed

lemma negotiate_required:
  "negotiate ov ud np a b ds = Inr c \<Longrightarrow> d \<in> set ds \<Longrightarrow> opt_required d \<Longrightarrow> opt_key d \<in> dom c"
proof (induction ds arbitrary: b)
  case Nil
  then show ?case by simp
next
  case (Cons x xs)
  show ?case
  proof (cases "d = x")
    case True
    with Cons.prems obtain v where "negotiate_option ov ud np a x = Inr (Some v)"
      "negotiate ov ud np a (b(opt_key x \<mapsto> v)) xs = Inr c"
      by (auto simp: negotiate_option_def split: sum.splits option.splits if_splits)
    with negotiate_dom [of ov ud np a "b(opt_key x \<mapsto> v)" xs c "opt_key x"] True
    show ?thesis by simp
  next
    case False
    with Cons show ?thesis by (auto split: sum.splits option.splits)
  qed
qed

lemma negotiated_resolved: "negotiated io fl p = Inr c \<Longrightarrow> resolved p c"
  unfolding negotiated_def resolved_def list_all_iff
  using negotiate_required by blast


lemma negotiate_other:
  "negotiate ov ud np a b ds = Inr c \<Longrightarrow> k \<notin> opt_key ` set ds \<Longrightarrow> c k = b k"
proof (induction ds arbitrary: b)
  case Nil
  then show ?case by simp
next
  case (Cons d ds)
  from Cons.prems(2) have k: "k \<noteq> opt_key d" "k \<notin> opt_key ` set ds" by auto
  show ?case
  proof (cases "negotiate_option ov ud np a d")
    case (Inl e)
    with Cons.prems show ?thesis by simp
  next
    case (Inr r)
    show ?thesis
    proof (cases r)
      case None
      with Inr Cons.prems(1) have "negotiate ov ud np a b ds = Inr c" by simp
      from Cons.IH [OF this k(2)] show ?thesis .
    next
      case (Some v)
      with Inr Cons.prems(1)
      have "negotiate ov ud np a (b(opt_key d \<mapsto> v)) ds = Inr c" by simp
      from Cons.IH [OF this k(2)] k(1) show ?thesis by simp
    qed
  qed
qed

lemma negotiate_key:
  "negotiate ov ud np a b ds = Inr c \<Longrightarrow> distinct (map opt_key ds) \<Longrightarrow> d \<in> set ds \<Longrightarrow>
     \<exists>r. negotiate_option ov ud np a d = Inr r \<and>
         c (opt_key d) = (if r = None then b (opt_key d) else r)"
proof (induction ds arbitrary: b)
  case Nil
  then show ?case by simp
next
  case (Cons x xs)
  from Cons.prems(2) have dx: "opt_key x \<notin> opt_key ` set xs" "distinct (map opt_key xs)"
    by auto
  show ?case
  proof (cases "negotiate_option ov ud np a x")
    case (Inl e)
    with Cons.prems show ?thesis by simp
  next
    case (Inr r)
    show ?thesis
    proof (cases r)
      case None
      with Inr Cons.prems(1) have n: "negotiate ov ud np a b xs = Inr c" by simp
      show ?thesis
      proof (cases "d = x")
        case True
        from negotiate_other [OF n dx(1)] True Inr None show ?thesis by simp
      next
        case False
        with Cons.prems(3) have "d \<in> set xs" by simp
        from Cons.IH [OF n dx(2) this] show ?thesis .
      qed
    next
      case (Some v)
      with Inr Cons.prems(1)
      have n: "negotiate ov ud np a (b(opt_key x \<mapsto> v)) xs = Inr c" by simp
      show ?thesis
      proof (cases "d = x")
        case True
        from negotiate_other [OF n dx(1)] True Inr Some show ?thesis by simp
      next
        case False
        with Cons.prems(3) have d: "d \<in> set xs" by simp
        with dx(1) have "opt_key d \<noteq> opt_key x" by (metis imageI)
        with Cons.IH [OF n dx(2) d] show ?thesis by (simp cong: if_cong)
      qed
    qed
  qed
qed

lemma negotiate_option_noPrompt:
  "negotiate_option ov ud True a d =
     (if unresolved ov ud d then Inl (ErrConfig (opt_key d))
      else Inr (case ov (opt_key d) of Some v \<Rightarrow> Some v
                | None \<Rightarrow> if ud \<and> opt_default d \<noteq> None then opt_default d else None))"
  by (auto simp: negotiate_option_def unresolved_def split: option.splits)

lemma negotiate_option_prompt: "\<exists>r. negotiate_option ov ud False a d = Inr r"
  by (auto simp: negotiate_option_def split: option.splits)

lemma negotiate_prompt: "\<exists>c. negotiate ov ud False a b ds = Inr c"
proof (induction ds arbitrary: b)
  case Nil
  show ?case by simp
next
  case (Cons d ds)
  obtain r where r: "negotiate_option ov ud False a d = Inr r"
    using negotiate_option_prompt by blast
  show ?case
  proof (cases r)
    case None
    with r Cons.IH show ?thesis by simp
  next
    case (Some v)
    with r Cons.IH show ?thesis by simp
  qed
qed

lemma negotiate_option_resolved:
  "\<not> unresolved ov ud d \<Longrightarrow> \<exists>r. negotiate_option ov ud np a d = Inr r"
  by (auto simp: negotiate_option_def unresolved_def split: option.splits)

lemma negotiate_noPrompt_fails:
  "filter (unresolved ov ud) ds \<noteq> [] \<Longrightarrow>
     negotiate ov ud True a b ds = Inl (ErrConfig (opt_key (hd (filter (unresolved ov ud) ds))))"
proof (induction ds arbitrary: b)
  case Nil
  then show ?case by simp
next
  case (Cons d ds)
  show ?case
  proof (cases "unresolved ov ud d")
    case True
    then show ?thesis by (simp add: negotiate_option_noPrompt)
  next
    case False
    with Cons.prems have f: "filter (unresolved ov ud) ds \<noteq> []" by simp
    from negotiate_option_resolved [OF False]
    obtain r where r: "negotiate_option ov ud True a d = Inr r" by blast
    show ?thesis
    proof (cases r)
      case None
      with r False Cons.IH [OF f] show ?thesis by simp
    next
      case (Some v)
      with r False Cons.IH [OF f] show ?thesis by simp
    qed
  qed
qed

lemma negotiate_noPrompt_succeeds:
  "filter (unresolved ov ud) ds = [] \<Longrightarrow> \<exists>c. negotiate ov ud True a b ds = Inr c"
proof (induction ds arbitrary: b)
  case Nil
  then show ?case by simp
next
  case (Cons d ds)
  from Cons.prems have u: "\<not> unresolved ov ud d" and f: "filter (unresolved ov ud) ds = []"
    by (auto split: if_splits)
  from negotiate_option_resolved [OF u]
  obtain r where r: "negotiate_option ov ud True a d = Inr r" by blast
  show ?case
  proof (cases r)
    case None
    with r Cons.IH [OF f] show ?thesis by simp
  next
    case (Some v)
    with r Cons.IH [OF f] show ?thesis by simp
  qed
qed

lemma negotiate_Inl_iff:
  "negotiate ov ud np a b ds = Inl e \<longleftrightarrow>
     np \<and> filter (unresolved ov ud) ds \<noteq> [] \<and>
     e = ErrConfig (opt_key (hd (filter (unresolved ov ud) ds)))"
proof (cases np)
  case False
  with negotiate_prompt [of ov ud a b ds] show ?thesis by auto
next
  case True
  show ?thesis
  proof (cases "filter (unresolved ov ud) ds = []")
    case e: True
    with negotiate_noPrompt_succeeds [OF e, of a b] True show ?thesis by auto
  next
    case ne: False
    with negotiate_noPrompt_fails [OF ne, of a b] True show ?thesis by auto
  qed
qed

subsection \<open>Precedence of the sources of an option value\<close>

text \<open>
  Claim C6. When the negotiation of a handler's declared options (with distinct keys)
  succeeds, the value bound in the bundle for each declared key follows the order
  override, default under the defaults flag, prompt, absent: the override if there is
  one, whatever the default and the prompt would give; else the default if the defaults
  flag is set and the option has one, without prompting; else the value entered at the
  prompt if the option is required; else the key is left absent. A successful
  negotiation under no-prompt has no required option left to prompt for.
\<close>

theorem negotiation_precedence:
  assumes "negotiate ov useDefaults noPrompt answer Map.empty ds = Inr c"
    and "distinct (map opt_key ds)"
    and "d \<in> set ds"
  shows "c (opt_key d) =
           (case ov (opt_key d) of
              Some v \<Rightarrow> Some v
            | None \<Rightarrow>
                if useDefaults \<and> opt_default d \<noteq> None then opt_default d
                else if opt_required d then Some (answer (opt_key d))
                else None) \<and>
         \<not> (noPrompt \<and> unresolved ov useDefaults d)"
proof -
  from negotiate_key [OF assms]
  obtain r where r: "negotiate_option ov useDefaults noPrompt answer d = Inr r"
    and c: "c (opt_key d) = r" by auto
  from r have "r = (case ov (opt_key d) of
              Some v \<Rightarrow> Some v
            | None \<Rightarrow>
                if useDefaults \<and> opt_default d \<noteq> None then opt_default d
                else if opt_required d then Some (answer (opt_key d))
                else None)"
    by (cases "ov (opt_key d)"; cases "opt_default d")
      (auto simp: negotiate_option_def split: if_splits)
  moreover from r have "\<not> (noPrompt \<and> unresolved ov useDefaults d)"
    by (cases "ov (opt_key d)"; cases "opt_default d")
      (auto simp: negotiate_option_def unresolved_def split: if_splits)
  ultimately show ?thesis using c by simp
qed

theorem negotiation_precedence_witness:
  "negotiate [''user'' \<mapsto> ''alice''] True True (typed ''site-b'') Map.empty
     [opt_user, opt_quality] = Inr [''user'' \<mapsto> ''alice'', ''quality'' \<mapsto> ''high''] \<and>
   distinct (map opt_key [opt_user, opt_quality]) \<and>
   opt_quality \<in> set [opt_user, opt_quality] \<and>
   [''user'' \<mapsto> ''alice'', ''quality'' \<mapsto> ''high''] (opt_key opt_quality) = Some ''high'' \<and>
   [''user'' \<mapsto> ''alice'', ''quality'' \<mapsto> ''high''] (opt_key opt_user) = Some ''alice''"
  using negotiation_precedence [of "[''user'' \<mapsto> ''alice'']" True True "typed ''site-b''"
      "[opt_user, opt_quality]" "[''user'' \<mapsto> ''alice'', ''quality'' \<mapsto> ''high'']" opt_quality]
  by (simp add: negotiate_option_def opt_user_def opt_quality_def)

subsection \<open>The two loops of main\<close>

lemma SetOptions_result:
  "SetOptions io h (lookup (options fl)) (defaults fl) (noprompt fl) st = (r, st') \<Longrightarrow>
     trace st' = trace st \<and>
     (r = None \<longleftrightarrow> filter (failing io fl) h = []) \<and>
     (filter (failing io fl) h \<noteq> [] \<longrightarrow>
        r = Some (projl (negotiated io fl (hd (filter (failing io fl) h)))))"
proof (induction h arbitrary: st)
  case Nil
  then show ?case by simp
next
  case (Cons p ps)
  show ?case
  proof (cases "negotiated io fl p")
    case (Inl e)
    with Cons.prems show ?thesis
      by (auto simp: failing_def negotiated_def)
  next
    case (Inr b)
    with Cons.prems
    have "SetOptions io ps (lookup (options fl)) (defaults fl) (noprompt fl)
            (st\<lparr>bundles := (bundles st)(p := Some b)\<rparr>) = (r, st')"
      by (simp add: negotiated_def)
    from Cons.IH [OF this] Inr show ?thesis by (simp add: failing_def)
  qed
qed


lemma negotiated_urls_append [simp]:
  "negotiated_urls (a @ b) = negotiated_urls a @ negotiated_urls b"
  by (simp add: negotiated_urls_def)

lemma negotiated_urls_Nil [simp]: "negotiated_urls [] = []"
  by (simp add: negotiated_urls_def)

lemma negotiated_urls_Cons [simp]:
  "negotiated_urls (e # es) = SetOptions_url e @ negotiated_urls es"
  by (simp add: negotiated_urls_def)

lemma negotiate_all_result:
  "negotiate_all io fl zs st = (s, st') \<Longrightarrow>
     \<exists>evs. trace st' = trace st @ evs \<and> (\<forall>e\<in>set evs. \<not> is_run e) \<and>
       (filter (failing io fl) (concat (map snd zs)) = [] \<longrightarrow>
          s = Continue \<and> negotiated_urls evs = map fst zs \<and>
          (\<forall>(u, h)\<in>set zs. length h = 0 \<longrightarrow> Log ErrorLevel (FoundNoHandler u) \<in> set evs)) \<and>
       (filter (failing io fl) (concat (map snd zs)) \<noteq> [] \<longrightarrow>
          s = Exited 1 \<and> evs \<noteq> [] \<and>
          last evs =
            Log FatalLevel (ErrorValue (projl (negotiated io fl
              (hd (filter (failing io fl) (concat (map snd zs))))))))"
proof (induction zs arbitrary: st)
  case Nil
  then show ?case by simp
next
  case (Cons z rest)
  obtain u h where z: "z = (u, h)" by (cases z)
  define st1 where "st1 = (if length h = 0 then emit (Log ErrorLevel (FoundNoHandler u)) st else st)"
  define pre where "pre = (if length h = 0 then [Log ErrorLevel (FoundNoHandler u)] else []) @ [CallSetOptions u]"
  obtain r st2 where so: "SetOptions io h (lookup (options fl)) (defaults fl) (noprompt fl)
      (emit (CallSetOptions u) st1) = (r, st2)"
    by (cases "SetOptions io h (lookup (options fl)) (defaults fl) (noprompt fl)
      (emit (CallSetOptions u) st1)")
  from SetOptions_result [OF so]
  have t2: "trace st2 = trace st @ pre"
    and rn: "r = None \<longleftrightarrow> filter (failing io fl) h = []"
    and rs: "filter (failing io fl) h \<noteq> [] \<Longrightarrow>
        r = Some (projl (negotiated io fl (hd (filter (failing io fl) h))))"
    by (auto simp: st1_def pre_def emit_def)
  have pre_run: "\<forall>e\<in>set pre. \<not> is_run e" by (simp add: pre_def)
  show ?case
  proof (cases r)
    case None
    with rn have fh: "filter (failing io fl) h = []" by simp
    from Cons.prems None so have "negotiate_all io fl rest st2 = (s, st')"
      by (simp add: z st1_def)
    from Cons.IH [OF this] obtain evs where evs: "trace st' = trace st2 @ evs"
      "\<forall>e\<in>set evs. \<not> is_run e"
      "filter (failing io fl) (concat (map snd rest)) = [] \<longrightarrow>
          s = Continue \<and> negotiated_urls evs = map fst rest \<and>
          (\<forall>(u, h)\<in>set rest. length h = 0 \<longrightarrow> Log ErrorLevel (FoundNoHandler u) \<in> set evs)"
      "filter (failing io fl) (concat (map snd rest)) \<noteq> [] \<longrightarrow>
          s = Exited 1 \<and> evs \<noteq> [] \<and>
          last evs =
            Log FatalLevel (ErrorValue (projl (negotiated io fl
              (hd (filter (failing io fl) (concat (map snd rest)))))))"
      by blast
    have np: "negotiated_urls pre = [u]" by (simp add: pre_def)
    have lp: "length h = 0 \<longrightarrow> Log ErrorLevel (FoundNoHandler u) \<in> set pre"
      by (simp add: pre_def)
    have "trace st' = trace st @ (pre @ evs)" using evs(1) t2 by simp
    moreover have "\<forall>e\<in>set (pre @ evs). \<not> is_run e" using pre_run evs(2) by auto
    moreover have "filter (failing io fl) (concat (map snd (z # rest))) = [] \<longrightarrow>
          s = Continue \<and> negotiated_urls (pre @ evs) = map fst (z # rest) \<and>
          (\<forall>(u, h)\<in>set (z # rest). length h = 0 \<longrightarrow>
              Log ErrorLevel (FoundNoHandler u) \<in> set (pre @ evs))"
      using evs(3) fh np lp by (auto simp: z)
    moreover have "filter (failing io fl) (concat (map snd (z # rest))) \<noteq> [] \<longrightarrow>
          s = Exited 1 \<and> pre @ evs \<noteq> [] \<and>
          last (pre @ evs) =
            Log FatalLevel (ErrorValue (projl (negotiated io fl
              (hd (filter (failing io fl) (concat (map snd (z # rest))))))))"
      using evs(4) fh by (simp add: z)
    ultimately show ?thesis by blast
  next
    case (Some err)
    with rn have fh: "filter (failing io fl) h \<noteq> []" by simp
    from rs [OF fh] Some
    have err: "err = projl (negotiated io fl (hd (filter (failing io fl) h)))" by simp
    from Cons.prems Some so
    have res: "s = Exited 1" "st' = emit (Log FatalLevel (ErrorValue err)) st2"
      by (auto simp: z st1_def)
    let ?evs = "pre @ [Log FatalLevel (ErrorValue err)]"
    have "trace st' = trace st @ ?evs" using res(2) t2 by (simp add: emit_def)
    moreover have "\<forall>e\<in>set ?evs. \<not> is_run e" using pre_run by simp
    moreover have "filter (failing io fl) (concat (map snd (z # rest))) \<noteq> []"
      using fh by (simp add: z)
    moreover have "hd (filter (failing io fl) (concat (map snd (z # rest)))) =
        hd (filter (failing io fl) h)"
      using fh by (simp add: z)
    ultimately show ?thesis using res(1) err by auto
  qed
qed


lemma negotiable_iff:
  "dropWhile (negotiable io fl) zs = [] \<longleftrightarrow>
     filter (failing io fl) (concat (map snd zs)) = []"
  by (induction zs) (auto simp: negotiable_def)

lemma negotiate_all_exact:
  "negotiate_all io fl zs st = (s, st') \<Longrightarrow>
     (dropWhile (negotiable io fl) zs = [] \<longrightarrow>
        s = Continue \<and> trace st' = trace st @ concat (map negotiation_events zs)) \<and>
     (dropWhile (negotiable io fl) zs \<noteq> [] \<longrightarrow>
        s = Exited 1 \<and>
        trace st' =
          trace st @ concat (map negotiation_events (takeWhile (negotiable io fl) zs)) @
          negotiation_events (hd (dropWhile (negotiable io fl) zs)) @
          [Log FatalLevel (ErrorValue (projl (negotiated io fl
             (hd (filter (failing io fl) (snd (hd (dropWhile (negotiable io fl) zs))))))))])"
proof (induction zs arbitrary: st)
  case Nil
  then show ?case by simp
next
  case (Cons z rest)
  obtain u h where z: "z = (u, h)" by (cases z)
  define st1 where "st1 = (if length h = 0 then emit (Log ErrorLevel (FoundNoHandler u)) st else st)"
  obtain r st2 where so: "SetOptions io h (lookup (options fl)) (defaults fl) (noprompt fl)
      (emit (CallSetOptions u) st1) = (r, st2)"
    by (cases "SetOptions io h (lookup (options fl)) (defaults fl) (noprompt fl)
      (emit (CallSetOptions u) st1)")
  from SetOptions_result [OF so]
  have t2: "trace st2 = trace st @ negotiation_events z"
    and rn: "r = None \<longleftrightarrow> filter (failing io fl) h = []"
    and rs: "filter (failing io fl) h \<noteq> [] \<Longrightarrow>
        r = Some (projl (negotiated io fl (hd (filter (failing io fl) h))))"
    by (auto simp: st1_def negotiation_events_def emit_def z)
  show ?case
  proof (cases r)
    case None
    with rn have good: "negotiable io fl z" by (simp add: negotiable_def z)
    from Cons.prems None so have "negotiate_all io fl rest st2 = (s, st')"
      by (simp add: z st1_def)
    from Cons.IH [OF this] t2 good show ?thesis by simp
  next
    case (Some err)
    with rn have fh: "filter (failing io fl) h \<noteq> []" by simp
    then have bad: "\<not> negotiable io fl z" by (simp add: negotiable_def z)
    from rs [OF fh] Some
    have err: "err = projl (negotiated io fl (hd (filter (failing io fl) h)))" by simp
    from Cons.prems Some so
    have "s = Exited 1" "st' = emit (Log FatalLevel (ErrorValue err)) st2"
      by (auto simp: z st1_def)
    with t2 bad err show ?thesis by (simp add: emit_def z)
  qed
qed

lemma negotiate_all_logs:
  "negotiate_all io fl zs st = (s, st') \<Longrightarrow> i < length zs \<Longrightarrow> length (snd (zs ! i)) = 0 \<Longrightarrow>
   filter (failing io fl) (concat (map snd (take i zs))) = [] \<Longrightarrow>
     Log ErrorLevel (FoundNoHandler (fst (zs ! i))) \<in> set (trace st')"
proof (induction zs arbitrary: st i)
  case Nil
  then show ?case by simp
next
  case (Cons z rest)
  obtain u h where z: "z = (u, h)" by (cases z)
  define st1 where "st1 = (if length h = 0 then emit (Log ErrorLevel (FoundNoHandler u)) st else st)"
  obtain r st2 where so: "SetOptions io h (lookup (options fl)) (defaults fl) (noprompt fl)
      (emit (CallSetOptions u) st1) = (r, st2)"
    by (cases "SetOptions io h (lookup (options fl)) (defaults fl) (noprompt fl)
      (emit (CallSetOptions u) st1)")
  from SetOptions_result [OF so]
  have t2: "trace st2 = trace st1 @ [CallSetOptions u]"
    and rn: "r = None \<longleftrightarrow> filter (failing io fl) h = []"
    by (auto simp: emit_def)
  show ?case
  proof (cases i)
    case 0
    with Cons.prems(3) have h: "length h = 0" by (simp add: z)
    then have "Log ErrorLevel (FoundNoHandler u) \<in> set (trace st2)"
      using t2 by (simp add: st1_def emit_def)
    moreover from h rn have r: "r = None" by simp
    moreover from Cons.prems(1) r so have "negotiate_all io fl rest st2 = (s, st')"
      by (simp add: z st1_def)
    from negotiate_all_result [OF this] obtain evs where "trace st' = trace st2 @ evs" by blast
    ultimately show ?thesis using 0 by (simp add: z)
  next
    case (Suc j)
    with Cons.prems(4) have "filter (failing io fl) h = []"
      and before: "filter (failing io fl) (concat (map snd (take j rest))) = []"
      by (auto simp: z)
    with rn have r: "r = None" by simp
    from Cons.prems(1) r so have na: "negotiate_all io fl rest st2 = (s, st')"
      by (simp add: z st1_def)
    from Cons.prems(2,3) Suc have "j < length rest" "length (snd (rest ! j)) = 0" by auto
    from Cons.IH [OF na this before] Suc show ?thesis by simp
  qed
qed

lemma SetOptions_store:
  "SetOptions io h (lookup (options (fl::flags))) (defaults fl) (noprompt fl) st = (None, st') \<Longrightarrow>
   \<forall>p c. bundles st p = Some c \<longrightarrow> negotiated io fl p = Inr c \<Longrightarrow>
     (\<forall>p c. bundles st' p = Some c \<longrightarrow> negotiated io fl p = Inr c) \<and>
     (\<forall>p. bundles st p \<noteq> None \<longrightarrow> bundles st' p \<noteq> None) \<and>
     (\<forall>p\<in>set h. bundles st' p \<noteq> None)"
proof (induction h arbitrary: st)
  case Nil
  then show ?case by simp
next
  case (Cons p ps)
  show ?case
  proof (cases "negotiated io fl p")
    case (Inl e)
    with Cons.prems(1) show ?thesis by (simp add: negotiated_def)
  next
    case (Inr c)
    let ?st = "st\<lparr>bundles := (bundles st)(p := Some c)\<rparr>"
    from Cons.prems(1) Inr
    have so: "SetOptions io ps (lookup (options fl)) (defaults fl) (noprompt fl) ?st = (None, st')"
      by (simp add: negotiated_def)
    from Cons.prems(2) Inr
    have ok: "\<forall>q c. bundles ?st q = Some c \<longrightarrow> negotiated io fl q = Inr c" by simp
    from Cons.IH [OF so ok]
    have 1: "\<forall>p c. bundles st' p = Some c \<longrightarrow> negotiated io fl p = Inr c"
      and 2: "\<forall>q. bundles ?st q \<noteq> None \<longrightarrow> bundles st' q \<noteq> None"
      and 3: "\<forall>p\<in>set ps. bundles st' p \<noteq> None" by auto
    from 2 have "\<forall>q. bundles st q \<noteq> None \<longrightarrow> bundles st' q \<noteq> None" by auto
    moreover from 2 have "bundles st' p \<noteq> None" by auto
    ultimately show ?thesis using 1 3 by simp
  qed
qed

lemma emit_bundles [simp]: "bundles (emit e st) = bundles st"
  by (simp add: emit_def)

lemma emit_trace [simp]: "trace (emit e st) = trace st @ [e]"
  by (simp add: emit_def)

lemma negotiate_all_store:
  "negotiate_all io fl zs st = (Continue, st') \<Longrightarrow>
   \<forall>p c. bundles st p = Some c \<longrightarrow> negotiated io fl p = Inr c \<Longrightarrow>
     (\<forall>p c. bundles st' p = Some c \<longrightarrow> negotiated io fl p = Inr c) \<and>
     (\<forall>p. bundles st p \<noteq> None \<longrightarrow> bundles st' p \<noteq> None) \<and>
     (\<forall>(u, h)\<in>set zs. \<forall>p\<in>set h. bundles st' p \<noteq> None)"
proof (induction zs arbitrary: st)
  case Nil
  then show ?case by simp
next
  case (Cons z rest)
  obtain u h where z: "z = (u, h)" by (cases z)
  define st1 where "st1 = emit (CallSetOptions u)
    (if length h = 0 then emit (Log ErrorLevel (FoundNoHandler u)) st else st)"
  have b1: "bundles st1 = bundles st" by (simp add: st1_def)
  obtain r st2 where so: "SetOptions io h (lookup (options fl)) (defaults fl) (noprompt fl) st1
      = (r, st2)"
    by (cases "SetOptions io h (lookup (options fl)) (defaults fl) (noprompt fl) st1")
  from Cons.prems(1) so have r: "r = None" and na: "negotiate_all io fl rest st2 = (Continue, st')"
    by (auto simp: z st1_def split: option.splits)
  from Cons.prems(2) b1
  have ok1: "\<forall>p c. bundles st1 p = Some c \<longrightarrow> negotiated io fl p = Inr c" by simp
  from SetOptions_store [OF so [unfolded r] ok1] b1
  have ok2: "\<forall>p c. bundles st2 p = Some c \<longrightarrow> negotiated io fl p = Inr c"
    and k2: "\<forall>p. bundles st p \<noteq> None \<longrightarrow> bundles st2 p \<noteq> None"
    and h2: "\<forall>p\<in>set h. bundles st2 p \<noteq> None" by auto
  from Cons.IH [OF na ok2]
  have ok': "\<forall>p c. bundles st' p = Some c \<longrightarrow> negotiated io fl p = Inr c"
    and k': "\<forall>p. bundles st2 p \<noteq> None \<longrightarrow> bundles st' p \<noteq> None"
    and h': "\<forall>(u, h)\<in>set rest. \<forall>p\<in>set h. bundles st' p \<noteq> None" by auto
  from k2 k' have "\<forall>p. bundles st p \<noteq> None \<longrightarrow> bundles st' p \<noteq> None" by auto
  moreover from h2 k' have "\<forall>p\<in>set h. bundles st' p \<noteq> None" by auto
  ultimately show ?case using ok' h' by (simp add: z)
qed

lemma download_all_step:
  "download_all io fl n ((u, h) # rest) st =
     (case SelectPlugin io h of
        Inl err \<Rightarrow>
          (Exited 1, st\<lparr>trace := trace st @ [CallSelectPlugin u, Log FatalLevel (ErrorValue err)]\<rparr>)
      | Inr p \<Rightarrow>
          if panics io fl (bundles st) u p
          then (Exited 1, st\<lparr>trace := trace st @ run_events io fl n (bundles st) u p\<rparr>)
          else download_all io fl n rest
                 (st\<lparr>trace := trace st @ run_events io fl n (bundles st) u p\<rparr>))"
  by (simp add: startDownloading_def run_events_def panics_def emit_def Let_def
      split: sum.splits dl_result.splits option.splits)

lemma run_events_no_SetOptions: "e \<in> set (run_events io fl n bs u p) \<Longrightarrow> \<not> is_SetOptions e"
  by (auto simp: run_events_def split: dl_result.splits option.splits if_splits)

lemma run_events_CallDownload:
  "CallDownload u' p' b \<in> set (run_events io fl n bs u p) \<longleftrightarrow>
     u' = u \<and> p' = p \<and> b = bs p"
  by (auto simp: run_events_def split: dl_result.splits option.splits if_splits)

lemma run_events_downloaded: "downloaded (run_events io fl n bs u p) = [u]"
  by (simp add: run_events_def split: dl_result.splits option.splits)

lemma run_events_panics:
  "Download io p (dldir fl) (bs p) u (workers fl) (zipit fl) (override fl) = Panic (Some r) \<Longrightarrow>
     panics io fl bs u p \<and>
     suffix [CallDownload u p (bs p), StopReporter, ReleaseLine,
             Log FatalLevel (Panicked r)] (run_events io fl n bs u p)"
  by (simp add: panics_def run_events_def suffix_def)

lemma run_events_last:
  "panics io fl bs u p \<Longrightarrow>
     run_events io fl n bs u p \<noteq> [] \<and> is_Fatal (last (run_events io fl n bs u p))"
  by (simp add: panics_def run_events_def split: dl_result.splits option.splits)


lemma SelectPlugin_mem: "SelectPlugin io h = Inr p \<Longrightarrow> p \<in> set h"
  by (auto simp: SelectPlugin_def Let_def split: if_splits)


declare download_all.simps(2) [simp del]

lemma download_all_bundles:
  "download_all io fl n zs st = (s, st') \<Longrightarrow> bundles st' = bundles st"
proof (induction zs arbitrary: st)
  case Nil
  then show ?case by simp
next
  case (Cons z rest)
  obtain u h where z: "z = (u, h)" by (cases z)
  show ?case
  proof (cases "SelectPlugin io h")
    case (Inl err)
    with Cons.prems show ?thesis by (auto simp: z download_all_step)
  next
    case (Inr p)
    show ?thesis
    proof (cases "panics io fl (bundles st) u p")
      case True
      with Inr Cons.prems show ?thesis by (auto simp: z download_all_step)
    next
      case False
      with Inr Cons.prems
      have "download_all io fl n rest
              (st\<lparr>trace := trace st @ run_events io fl n (bundles st) u p\<rparr>) = (s, st')"
        by (simp add: z download_all_step)
      from Cons.IH [OF this] show ?thesis by simp
    qed
  qed
qed

lemma download_all_events:
  "download_all io fl n zs st = (s, st') \<Longrightarrow>
     \<exists>evs. trace st' = trace st @ evs \<and>
       (\<forall>e\<in>set evs. \<not> is_SetOptions e) \<and>
       (\<forall>u p b. CallDownload u p b \<in> set evs \<longrightarrow>
          b = bundles st p \<and> (\<exists>h. (u, h) \<in> set zs \<and> p \<in> set h)) \<and>
       (s = Continue \<or> s = Exited 1 \<and> evs \<noteq> [] \<and> is_Fatal (last evs))"
proof (induction zs arbitrary: st)
  case Nil
  then show ?case by simp
next
  case (Cons z rest)
  obtain u h where z: "z = (u, h)" by (cases z)
  show ?case
  proof (cases "SelectPlugin io h")
    case (Inl err)
    with Cons.prems have "s = Exited 1"
      "trace st' = trace st @ [CallSelectPlugin u, Log FatalLevel (ErrorValue err)]"
      by (auto simp: z download_all_step)
    then show ?thesis by simp
  next
    case (Inr p)
    let ?re = "run_events io fl n (bundles st) u p"
    from SelectPlugin_mem [OF Inr] have ph: "p \<in> set h" .
    have re_calls: "\<forall>u' p' b. CallDownload u' p' b \<in> set ?re \<longrightarrow>
          b = bundles st p' \<and> (\<exists>h. (u', h) \<in> set (z # rest) \<and> p' \<in> set h)"
      using ph by (auto simp: run_events_CallDownload z)
    show ?thesis
    proof (cases "panics io fl (bundles st) u p")
      case True
      with Inr Cons.prems have "s = Exited 1" "trace st' = trace st @ ?re"
        by (auto simp: z download_all_step)
      with run_events_last [OF True, of n] run_events_no_SetOptions [of _ io fl n "bundles st" u p]
        re_calls
      show ?thesis by blast
    next
      case False
      let ?st = "st\<lparr>trace := trace st @ ?re\<rparr>"
      from False Inr Cons.prems have "download_all io fl n rest ?st = (s, st')"
        by (simp add: z download_all_step)
      from Cons.IH [OF this] obtain evs where evs: "trace st' = trace st @ ?re @ evs"
        "\<forall>e\<in>set evs. \<not> is_SetOptions e"
        "\<forall>u p b. CallDownload u p b \<in> set evs \<longrightarrow>
          b = bundles st p \<and> (\<exists>h. (u, h) \<in> set rest \<and> p \<in> set h)"
        "s = Continue \<or> s = Exited 1 \<and> evs \<noteq> [] \<and> is_Fatal (last evs)"
        by auto
      have "\<forall>e\<in>set (?re @ evs). \<not> is_SetOptions e"
        using evs(2) run_events_no_SetOptions [of _ io fl n "bundles st" u p] by auto
      moreover have "\<forall>u' p' b. CallDownload u' p' b \<in> set (?re @ evs) \<longrightarrow>
          b = bundles st p' \<and> (\<exists>h. (u', h) \<in> set (z # rest) \<and> p' \<in> set h)"
        using evs(3) re_calls by (simp; blast)
      moreover have "s = Continue \<or> s = Exited 1 \<and> ?re @ evs \<noteq> [] \<and> is_Fatal (last (?re @ evs))"
        using evs(4) by auto
      ultimately show ?thesis using evs(1) by blast
    qed
  qed
qed

lemma download_all_selection_failure:
  "download_all io fl n zs st = (s, st') \<Longrightarrow> i < length zs \<Longrightarrow>
   isl (SelectPlugin io (snd (zs ! i))) \<Longrightarrow>
     s = Exited 1 \<and>
     (\<exists>evs. trace st' = trace st @ evs \<and> prefix (downloaded evs) (take i (map fst zs)))"
proof (induction zs arbitrary: st i)
  case Nil
  then show ?case by simp
next
  case (Cons z rest)
  obtain u h where z: "z = (u, h)" by (cases z)
  show ?case
  proof (cases "SelectPlugin io h")
    case (Inl err)
    with Cons.prems(1) have "s = Exited 1"
      "trace st' = trace st @ [CallSelectPlugin u, Log FatalLevel (ErrorValue err)]"
      by (auto simp: z download_all_step)
    then show ?thesis by simp
  next
    case (Inr p)
    let ?re = "run_events io fl n (bundles st) u p"
    from Inr Cons.prems(2,3) obtain j where j: "i = Suc j" "j < length rest"
      "isl (SelectPlugin io (snd (rest ! j)))"
      by (cases i) (auto simp: z)
    show ?thesis
    proof (cases "panics io fl (bundles st) u p")
      case True
      with Inr Cons.prems(1) have "s = Exited 1" "trace st' = trace st @ ?re"
        by (auto simp: z download_all_step)
      moreover have "prefix (downloaded ?re) (take i (map fst (z # rest)))"
        by (simp add: run_events_downloaded j(1) z)
      ultimately show ?thesis by blast
    next
      case False
      let ?st = "st\<lparr>trace := trace st @ ?re\<rparr>"
      from False Inr Cons.prems(1) have "download_all io fl n rest ?st = (s, st')"
        by (simp add: z download_all_step)
      from Cons.IH [OF this j(2,3)] obtain evs where evs: "s = Exited 1"
        "trace st' = trace st @ ?re @ evs" "prefix (downloaded evs) (take j (map fst rest))"
        by auto
      have "prefix (downloaded (?re @ evs)) (take i (map fst (z # rest)))"
        using evs(3) by (simp add: run_events_downloaded j(1) z)
      with evs(1,2) show ?thesis by blast
    qed
  qed
qed

lemma download_all_panic:
  "download_all io fl n zs st = (s, st') \<Longrightarrow>
     \<exists>evs. trace st' = trace st @ evs \<and>
       (\<forall>u p b r. CallDownload u p b \<in> set evs \<longrightarrow>
          Download io p (dldir fl) b u (workers fl) (zipit fl) (override fl) = Panic (Some r) \<longrightarrow>
          s = Exited 1 \<and>
          suffix [CallDownload u p b, StopReporter, ReleaseLine, Log FatalLevel (Panicked r)] evs)"
proof (induction zs arbitrary: st)
  case Nil
  then show ?case by simp
next
  case (Cons z rest)
  obtain u h where z: "z = (u, h)" by (cases z)
  show ?case
  proof (cases "SelectPlugin io h")
    case (Inl err)
    with Cons.prems have "s = Exited 1"
      "trace st' = trace st @ [CallSelectPlugin u, Log FatalLevel (ErrorValue err)]"
      by (auto simp: z download_all_step)
    then show ?thesis by simp
  next
    case (Inr p)
    let ?re = "run_events io fl n (bundles st) u p"
    have re: "\<forall>u' p' b r. CallDownload u' p' b \<in> set ?re \<longrightarrow>
          Download io p' (dldir fl) b u' (workers fl) (zipit fl) (override fl) = Panic (Some r) \<longrightarrow>
          panics io fl (bundles st) u p \<and>
          suffix [CallDownload u' p' b, StopReporter, ReleaseLine, Log FatalLevel (Panicked r)] ?re"
      using run_events_panics [of io p fl "bundles st" u _ n]
      by (auto simp: run_events_CallDownload)
    show ?thesis
    proof (cases "panics io fl (bundles st) u p")
      case True
      with Inr Cons.prems have "s = Exited 1" "trace st' = trace st @ ?re"
        by (auto simp: z download_all_step)
      with re show ?thesis by blast
    next
      case False
      let ?st = "st\<lparr>trace := trace st @ ?re\<rparr>"
      from False Inr Cons.prems have "download_all io fl n rest ?st = (s, st')"
        by (simp add: z download_all_step)
      from Cons.IH [OF this] obtain evs where evs: "trace st' = trace st @ ?re @ evs"
        "\<forall>u p b r. CallDownload u p b \<in> set evs \<longrightarrow>
          Download io p (dldir fl) b u (workers fl) (zipit fl) (override fl) = Panic (Some r) \<longrightarrow>
          s = Exited 1 \<and>
          suffix [CallDownload u p b, StopReporter, ReleaseLine, Log FatalLevel (Panicked r)] evs"
        by auto
      have "\<forall>u p b r. CallDownload u p b \<in> set (?re @ evs) \<longrightarrow>
          Download io p (dldir fl) b u (workers fl) (zipit fl) (override fl) = Panic (Some r) \<longrightarrow>
          s = Exited 1 \<and>
          suffix [CallDownload u p b, StopReporter, ReleaseLine, Log FatalLevel (Panicked r)]
            (?re @ evs)"
        using evs(2) re False by (auto intro: suffix_appendI)
      with evs(1) show ?thesis by blast
    qed
  qed
qed

lemma download_all_completes:
  "download_all io fl n zs st = (s, st') \<Longrightarrow>
   \<forall>z\<in>set zs. \<not> isl (SelectPlugin io (snd z)) \<Longrightarrow>
   \<forall>p dir b u w z ov r. Download io p dir b u w z ov \<noteq> Panic (Some r) \<Longrightarrow>
     s = Continue \<and> (\<exists>evs. trace st' = trace st @ evs \<and> downloaded evs = map fst zs)"
proof (induction zs arbitrary: st)
  case Nil
  then show ?case by simp
next
  case (Cons z rest)
  obtain u h where z: "z = (u, h)" by (cases z)
  from Cons.prems(2) obtain p where p: "SelectPlugin io h = Inr p"
    by (cases "SelectPlugin io h") (auto simp: z)
  from Cons.prems(3) have np: "\<not> panics io fl (bundles st) u p"
    by (auto simp: panics_def split: dl_result.splits option.splits)
  let ?re = "run_events io fl n (bundles st) u p"
  from p np Cons.prems(1)
  have "download_all io fl n rest (st\<lparr>trace := trace st @ ?re\<rparr>) = (s, st')"
    by (simp add: z download_all_step)
  from Cons.IH [OF this _ Cons.prems(3)] Cons.prems(2)
  obtain evs where "s = Continue" "trace st' = trace st @ ?re @ evs"
    "downloaded evs = map fst rest" by auto
  then have "trace st' = trace st @ (?re @ evs)" "downloaded (?re @ evs) = map fst (z # rest)"
    by (simp_all add: run_events_downloaded z)
  with \<open>s = Continue\<close> show ?case by blast
qed

subsection \<open>main\<close>

text \<open>The definitions that evaluating \<^verbatim>\<open>main\<close> on the examples unfolds.\<close>

lemmas example_defs =
  console_def clumsy_def cmdline_def cmdline_n_def site_a_def mirror_a_def site_b_def
  opt_user_def opt_quality_def opt_token_def typed_def fetch_def first_choice_def
  wrong_choice_def

lemmas run_defs =
  main_def FindHandlers_def init_def emit_def SelectPlugin_def startDownloading_def
  negotiate_option_def lookup_def normalize_dldir_def TrimSuffix_def HasSuffix_def
  FromSlash_def download_all.simps negotiated_def failing_def unresolved_def resolved_def
  candidates_def negotiable_def negotiation_events_def

lemma negotiated_parsed [simp]: "negotiated io (parsed io' fl) p = negotiated io fl p"
  by (simp add: negotiated_def parsed_def)

lemma failing_parsed [simp]: "failing io (parsed io' fl) = failing io fl"
  by (simp add: failing_def fun_eq_iff)

lemma candidates_length [simp]: "length (candidates io fl) = length (args fl)"
  by (simp add: candidates_def FindHandlers_def)

lemma candidates_fst [simp]: "map fst (candidates io fl) = args fl"
  by (simp add: candidates_def FindHandlers_def)

lemma candidates_snd [simp]: "map snd (candidates io fl) = FindHandlers (Plugins io) (args fl)"
  by (simp add: candidates_def FindHandlers_def)

lemma candidates_nth:
  "i < length (args fl) \<Longrightarrow>
     candidates io fl ! i = (args fl ! i, FindHandlers (Plugins io) (args fl) ! i)"
  by (simp add: candidates_def FindHandlers_def)

lemma candidates_registry: "(u, h) \<in> set (candidates io fl) \<Longrightarrow> set h \<subseteq> set (Plugins io)"
  by (auto simp: candidates_def FindHandlers_def zip_map2 dest!: set_zip_rightD)

lemma failing_candidates:
  "filter (failing io fl) (concat (map snd (candidates io fl))) \<noteq> [] \<longleftrightarrow>
     (\<exists>h\<in>set (FindHandlers (Plugins io) (args fl)). \<exists>p\<in>set h. failing io fl p)"
  by (auto simp: filter_empty_conv)

lemma main_cases [case_names version usage negotiation_failed downloads]:
  obtains "printVersion fl" "main io fl = (Exited 0, emit (Println (version io)) init)"
  | "\<not> printVersion fl" "args fl = []" "main io fl = (Exited 0, emit Usage init)"
  | st where "\<not> printVersion fl" "args fl \<noteq> []"
      "negotiate_all io (parsed io fl) (candidates io fl) init = (Exited 1, st)"
      "main io fl = (Exited 1, st)"
  | st1 s st where "\<not> printVersion fl" "args fl \<noteq> []"
      "negotiate_all io (parsed io fl) (candidates io fl) init = (Continue, st1)"
      "download_all io (parsed io fl) (length (args fl)) (candidates io fl) st1 = (s, st)"
      "main io fl = (s, st)"
proof (cases "printVersion fl")
  case True
  then have "main io fl = (Exited 0, emit (Println (version io)) init)"
    by (simp add: main_def)
  with True that(1) show ?thesis by blast
next
  case pv: False
  show ?thesis
  proof (cases "args fl = []")
    case True
    with pv have "main io fl = (Exited 0, emit Usage init)" by (simp add: main_def)
    with pv True that(2) show ?thesis by blast
  next
    case ne: False
    obtain s1 st1 where n: "negotiate_all io (parsed io fl) (candidates io fl) init = (s1, st1)"
      by (cases "negotiate_all io (parsed io fl) (candidates io fl) init")
    from negotiate_all_result [OF n] have s1: "s1 = Continue \<or> s1 = Exited 1" by blast
    show ?thesis
    proof (cases "s1 = Continue")
      case True
      obtain s st where d:
        "download_all io (parsed io fl) (length (args fl)) (candidates io fl) st1 = (s, st)"
        by (cases "download_all io (parsed io fl) (length (args fl)) (candidates io fl) st1")
      from pv ne n d True have "main io fl = (s, st)"
        by (simp add: main_def parsed_def candidates_def Let_def)
      with pv ne n d True that(4) show ?thesis by blast
    next
      case False
      with s1 have e: "s1 = Exited 1" by simp
      from pv ne n e have "main io fl = (Exited 1, st1)"
        by (simp add: main_def parsed_def candidates_def Let_def)
      with pv ne n e that(3) show ?thesis by blast
    qed
  qed
qed


lemma init_trace [simp]: "trace init = []"
  by (simp add: init_def)

lemma init_bundles [simp]: "bundles init p = None"
  by (simp add: init_def)

lemma negotiable_parsed [simp]: "negotiable io (parsed io' fl) = negotiable io fl"
  by (simp add: negotiable_def fun_eq_iff)

lemma not_run_bound_call: "\<not> is_run e \<Longrightarrow> bound_call io fl e"
  by (cases e) auto

lemma negotiation_events_not_run: "e \<in> set (negotiation_events z) \<Longrightarrow> \<not> is_run e"
  by (auto simp: negotiation_events_def split: if_splits)

lemma negotiated_urls_negotiation_events:
  "negotiated_urls (concat (map negotiation_events zs)) = map fst zs"
  by (induction zs) (simp_all add: negotiation_events_def)

lemma is_run_CallDownload: "\<forall>e\<in>set a. \<not> is_run e \<Longrightarrow> CallDownload u p b \<notin> set a"
  by auto

text \<open>
  Claim C4. In every invocation the trace of \<^verbatim>\<open>main\<close> splits into a first part without
  any selection or download and a second part without any \<^verbatim>\<open>SetOptions\<close> call; when the
  second part is not empty, the first part is exactly the first loop run to its end:
  for every URL in order, the error log if its candidate set is empty and then the call
  of \<^verbatim>\<open>SetOptions\<close>. Every call of \<^verbatim>\<open>Download\<close> is made for a handler to which the bundle
  that its negotiation yields is bound, and that bundle binds all its required options.
  If the invocation is not a version request and negotiation fails for some candidate
  of some URL, the process exits with status 1 and the trace is exactly: the first loop
  for the URLs before the first one with a failing candidate, the error log (if any)
  and the \<^verbatim>\<open>SetOptions\<close> call of that URL, and the fatal log of the error of its first
  failing candidate; nothing is negotiated, selected or downloaded after that call.
\<close>

theorem negotiation_before_downloads:
  "(\<exists>a b. trace (snd (main io fl)) = a @ b \<and>
       (\<forall>e\<in>set a. \<not> is_run e) \<and> (\<forall>e\<in>set b. \<not> is_SetOptions e) \<and>
       (b \<noteq> [] \<longrightarrow>
          a = concat (map negotiation_events (candidates io fl)) \<and>
          negotiated_urls a = args fl)) \<and>
   (\<forall>e\<in>set (trace (snd (main io fl))). bound_call io fl e) \<and>
   (\<not> printVersion fl \<longrightarrow>
    (\<exists>h\<in>set (FindHandlers (Plugins io) (args fl)). \<exists>p\<in>set h. failing io fl p) \<longrightarrow>
      fst (main io fl) = Exited 1 \<and>
      (\<forall>e\<in>set (trace (snd (main io fl))). \<not> is_run e) \<and>
      trace (snd (main io fl)) =
        concat (map negotiation_events (takeWhile (negotiable io fl) (candidates io fl))) @
        negotiation_events (hd (dropWhile (negotiable io fl) (candidates io fl))) @
        [Log FatalLevel (ErrorValue (projl (negotiated io fl
           (hd (filter (failing io fl)
             (snd (hd (dropWhile (negotiable io fl) (candidates io fl)))))))))])"
proof (cases rule: main_cases [of fl io])
  case version
  have "\<exists>a b. [Println (version io)] = a @ b \<and>
       (\<forall>e\<in>set a. \<not> is_run e) \<and> (\<forall>e\<in>set b. \<not> is_SetOptions e) \<and>
       (b \<noteq> [] \<longrightarrow>
          a = concat (map negotiation_events (candidates io fl)) \<and>
          negotiated_urls a = args fl)"
    by (rule exI [of _ "[Println (version io)]"], rule exI [of _ "[]"]) simp
  with version show ?thesis by simp
next
  case usage
  have "\<exists>a b. [Usage] = a @ b \<and>
       (\<forall>e\<in>set a. \<not> is_run e) \<and> (\<forall>e\<in>set b. \<not> is_SetOptions e) \<and>
       (b \<noteq> [] \<longrightarrow>
          a = concat (map negotiation_events (candidates io fl)) \<and>
          negotiated_urls a = args fl)"
    by (rule exI [of _ "[Usage]"], rule exI [of _ "[]"]) simp
  with usage show ?thesis by (simp add: FindHandlers_def)
next
  case (negotiation_failed st)
  from negotiate_all_result [OF negotiation_failed(3)]
  have nr: "\<forall>e\<in>set (trace st). \<not> is_run e" by auto
  from negotiate_all_exact [OF negotiation_failed(3)]
  have ex: "trace st =
        concat (map negotiation_events (takeWhile (negotiable io fl) (candidates io fl))) @
        negotiation_events (hd (dropWhile (negotiable io fl) (candidates io fl))) @
        [Log FatalLevel (ErrorValue (projl (negotiated io fl
           (hd (filter (failing io fl)
             (snd (hd (dropWhile (negotiable io fl) (candidates io fl)))))))))]"
    by (cases "dropWhile (negotiable io fl) (candidates io fl) = []") simp_all
  have "\<exists>a b. trace st = a @ b \<and>
       (\<forall>e\<in>set a. \<not> is_run e) \<and> (\<forall>e\<in>set b. \<not> is_SetOptions e) \<and>
       (b \<noteq> [] \<longrightarrow>
          a = concat (map negotiation_events (candidates io fl)) \<and>
          negotiated_urls a = args fl)"
    using nr by (intro exI [of _ "trace st"] exI [of _ "[]"]) simp
  moreover have "\<forall>e\<in>set (trace st). bound_call io fl e"
    using nr not_run_bound_call by blast
  ultimately show ?thesis
    using negotiation_failed(4) nr ex by simp
next
  case (downloads st1 s st)
  from negotiate_all_result [OF downloads(3)]
  have nr: "\<forall>e\<in>set (trace st1). \<not> is_run e" by auto
  from negotiate_all_exact [OF downloads(3)]
  have nofail: "dropWhile (negotiable io fl) (candidates io fl) = []"
    and a: "trace st1 = concat (map negotiation_events (candidates io fl))"
    by (cases "dropWhile (negotiable io fl) (candidates io fl) = []"; simp)+
  have na: "negotiated_urls (trace st1) = args fl"
    by (simp add: a negotiated_urls_negotiation_events)
  from download_all_events [OF downloads(4)]
  obtain b where b: "trace st = trace st1 @ b" "\<forall>e\<in>set b. \<not> is_SetOptions e"
    "\<forall>u p c. CallDownload u p c \<in> set b \<longrightarrow>
       c = bundles st1 p \<and> (\<exists>h. (u, h) \<in> set (candidates io fl) \<and> p \<in> set h)"
    by auto
  have 1: "\<exists>a b. trace st = a @ b \<and>
       (\<forall>e\<in>set a. \<not> is_run e) \<and> (\<forall>e\<in>set b. \<not> is_SetOptions e) \<and>
       (b \<noteq> [] \<longrightarrow>
          a = concat (map negotiation_events (candidates io fl)) \<and>
          negotiated_urls a = args fl)"
    using nr b(1,2) na a by blast
  have 2: "\<forall>e\<in>set (trace st). bound_call io fl e"
  proof
    fix e assume e: "e \<in> set (trace st)"
    show "bound_call io fl e"
    proof (cases "e \<in> set (trace st1)")
      case True
      with nr not_run_bound_call show ?thesis by blast
    next
      case False
      with e b(1) have eb: "e \<in> set b" by simp
      have "\<forall>p c. bundles init p = Some c \<longrightarrow> negotiated io (parsed io fl) p = Inr c"
        by simp
      from negotiate_all_store [OF downloads(3) this]
      have ok: "\<forall>p c. bundles st1 p = Some c \<longrightarrow> negotiated io fl p = Inr c"
        and bound: "\<forall>(u, h)\<in>set (candidates io fl). \<forall>p\<in>set h. bundles st1 p \<noteq> None"
        by auto
      show ?thesis
      proof (cases e)
        case (CallDownload u p c)
        with eb b(3) obtain h where h: "c = bundles st1 p"
          "(u, h) \<in> set (candidates io fl)" "p \<in> set h" by blast
        from h(2,3) bound obtain c' where c': "bundles st1 p = Some c'" by blast
        with ok have "negotiated io fl p = Inr c'" by blast
        with negotiated_resolved [OF this] c' h(1) CallDownload show ?thesis by simp
      qed simp_all
    qed
  qed
  from nofail have 3: "\<not> (\<exists>h\<in>set (FindHandlers (Plugins io) (args fl)). \<exists>p\<in>set h. failing io fl p)"
    using failing_candidates [of io fl] negotiable_iff [of io fl "candidates io fl"] by simp
  from 1 2 3 downloads(5) show ?thesis by simp
qed

theorem negotiation_before_downloads_witness:
  "list_all (bound_call console (cmdline [''a:1'', ''b:1'']))
     (trace (snd (main console (cmdline [''a:1'', ''b:1''])))) \<and>
   negotiated_urls (trace (snd (main console (cmdline [''a:1'', ''b:1''])))) = [''a:1'', ''b:1''] \<and>
   downloaded (trace (snd (main console (cmdline [''a:1'', ''b:1''])))) = [''a:1'', ''b:1''] \<and>
   \<not> printVersion (cmdline_n [''a:1'', ''b:1'', ''a:2'']) \<and>
   [site_b] \<in> set (FindHandlers (Plugins console) (args (cmdline_n [''a:1'', ''b:1'', ''a:2'']))) \<and>
   failing console (cmdline_n [''a:1'', ''b:1'', ''a:2'']) site_b \<and>
   fst (main console (cmdline_n [''a:1'', ''b:1'', ''a:2''])) = Exited 1 \<and>
   trace (snd (main console (cmdline_n [''a:1'', ''b:1'', ''a:2''])))
     = [CallSetOptions ''a:1'', CallSetOptions ''b:1'',
        Log FatalLevel (ErrorValue (ErrConfig ''user''))]"
  using negotiation_before_downloads [of console "cmdline [''a:1'', ''b:1'']"]
    negotiation_before_downloads [of console "cmdline_n [''a:1'', ''b:1'', ''a:2'']"]
  by (simp add: run_defs example_defs)

lemma main_selection_failure:
  assumes pv: "\<not> printVersion fl" and i: "i < length (args fl)"
    and sel: "isl (SelectPlugin io (FindHandlers (Plugins io) (args fl) ! i))"
  shows "fst (main io fl) = Exited 1 \<and>
         prefix (downloaded (trace (snd (main io fl)))) (take i (args fl)) \<and>
         trace (snd (main io fl)) \<noteq> [] \<and> is_Fatal (last (trace (snd (main io fl))))"
proof (cases rule: main_cases [of fl io])
  case version
  with pv show ?thesis by simp
next
  case usage
  with i show ?thesis by simp
next
  case (negotiation_failed st)
  from negotiate_all_result [OF negotiation_failed(3)]
  obtain evs where evs: "trace st = evs" "\<forall>e\<in>set evs. \<not> is_run e"
    "filter (failing io fl) (concat (map snd (candidates io fl))) = [] \<longrightarrow> Exited 1 = Continue"
    "filter (failing io fl) (concat (map snd (candidates io fl))) \<noteq> [] \<longrightarrow>
       evs \<noteq> [] \<and> is_Fatal (last evs)"
    by auto
  from evs(3) have "filter (failing io fl) (concat (map snd (candidates io fl))) \<noteq> []" by auto
  with evs(4) have "evs \<noteq> []" "is_Fatal (last evs)" by auto
  with negotiation_failed(4) evs(1) not_run_downloaded [OF evs(2)] show ?thesis by simp
next
  case (downloads st1 s st)
  from negotiate_all_result [OF downloads(3)]
  obtain a where a: "trace st1 = a" "\<forall>e\<in>set a. \<not> is_run e" by auto
  from i sel have "isl (SelectPlugin io (snd (candidates io fl ! i)))"
    by (simp add: candidates_nth)
  from download_all_selection_failure [OF downloads(4) _ this] i
  obtain evs where evs: "s = Exited 1" "trace st = a @ evs"
    "prefix (downloaded evs) (take i (args fl))"
    using a(1) by auto
  from download_all_events [OF downloads(4)] evs(1,2) a(1)
  have "evs \<noteq> []" "is_Fatal (last evs)" by auto
  with downloads(5) evs not_run_downloaded [OF a(2)] show ?thesis by simp
qed

lemma main_no_handler_logged:
  assumes pv: "\<not> printVersion fl" and i: "i < length (args fl)"
    and none: "FindHandlers (Plugins io) (args fl) ! i = []"
    and ok: "\<forall>h\<in>set (take i (FindHandlers (Plugins io) (args fl))). \<forall>p\<in>set h. \<not> failing io fl p"
  shows "Log ErrorLevel (FoundNoHandler (args fl ! i)) \<in> set (trace (snd (main io fl)))"
proof -
  from ok have before:
    "filter (failing io (parsed io fl)) (concat (map snd (take i (candidates io fl)))) = []"
    by (auto simp: filter_empty_conv take_map [symmetric])
  from i none have zi: "length (snd (candidates io fl ! i)) = 0"
    "fst (candidates io fl ! i) = args fl ! i"
    by (simp_all add: candidates_nth)
  from i have il: "i < length (candidates io fl)" by simp
  show ?thesis
  proof (cases rule: main_cases [of fl io])
    case version
    with pv show ?thesis by simp
  next
    case usage
    with i show ?thesis by simp
  next
    case (negotiation_failed st)
    from negotiate_all_logs [OF negotiation_failed(3) il zi(1) before] zi(2)
      negotiation_failed(4)
    show ?thesis by simp
  next
    case (downloads st1 s st)
    from negotiate_all_logs [OF downloads(3) il zi(1) before] zi(2)
    have "Log ErrorLevel (FoundNoHandler (args fl ! i)) \<in> set (trace st1)" by simp
    moreover from download_all_events [OF downloads(4)]
    obtain evs where "trace st = trace st1 @ evs" by auto
    ultimately show ?thesis using downloads(5) by simp
  qed
qed

text \<open>
  Claim C1, as stated, at the URLs \<open>x:1\<close>, \<open>b:1\<close>: no handler claims \<open>x:1\<close>, one handler
  claims \<open>b:1\<close>; the process exits with status 1 and \<^verbatim>\<open>Download\<close> is never called, so the
  run for \<open>b:1\<close> does not proceed.
\<close>

theorem no_handler_counterexample:
  "FindHandlers (Plugins console) (args (cmdline [''x:1'', ''b:1''])) = [[], [site_b]] \<and>
   fst (main console (cmdline [''x:1'', ''b:1''])) = Exited 1 \<and>
   downloaded (trace (snd (main console (cmdline [''x:1'', ''b:1'']))))  = []"
  by (simp add: run_defs example_defs)

text \<open>
  Claim C1, amended. In an invocation that is not a version request, if no handler of
  the registry claims the URL at position \<open>i\<close>, then its candidate set is empty; an error
  naming the URL is logged, unless the negotiation of a candidate of an earlier URL has
  failed (which ends the process before that URL is looked at); the process exits with
  status 1 after a fatal log; and \<^verbatim>\<open>Download\<close> is called only for URLs listed before
  position \<open>i\<close>, in their order: the run of that URL and the runs of all URLs after it
  do not happen.
\<close>

theorem no_handler_is_fatal:
  assumes "\<not> printVersion fl" and "i < length (args fl)"
    and "\<forall>p\<in>set (Plugins io). \<not> claims p (args fl ! i)"
  shows "FindHandlers (Plugins io) (args fl) ! i = [] \<and>
         ((\<forall>h\<in>set (take i (FindHandlers (Plugins io) (args fl))). \<forall>p\<in>set h. \<not> failing io fl p) \<longrightarrow>
            Log ErrorLevel (FoundNoHandler (args fl ! i)) \<in> set (trace (snd (main io fl)))) \<and>
         fst (main io fl) = Exited 1 \<and>
         trace (snd (main io fl)) \<noteq> [] \<and> is_Fatal (last (trace (snd (main io fl)))) \<and>
         prefix (downloaded (trace (snd (main io fl)))) (take i (args fl))"
proof -
  from assms(2,3) have none: "FindHandlers (Plugins io) (args fl) ! i = []"
    by (simp add: FindHandlers_def filter_empty_conv)
  then have "isl (SelectPlugin io (FindHandlers (Plugins io) (args fl) ! i))"
    by (simp add: SelectPlugin_def)
  from main_selection_failure [OF assms(1,2) this]
    main_no_handler_logged [OF assms(1,2) none] none
  show ?thesis by blast
qed

theorem no_handler_is_fatal_witness:
  "\<not> printVersion (cmdline_n [''a:1'', ''x:1'', ''b:1'']) \<and>
   (1::nat) < length (args (cmdline_n [''a:1'', ''x:1'', ''b:1''])) \<and>
   list_all (\<lambda>p. \<not> claims p (args (cmdline_n [''a:1'', ''x:1'', ''b:1'']) ! 1)) (Plugins console) \<and>
   list_all (list_all (\<lambda>p. \<not> failing console (cmdline_n [''a:1'', ''x:1'', ''b:1'']) p))
     (take 1 (FindHandlers (Plugins console) (args (cmdline_n [''a:1'', ''x:1'', ''b:1''])))) \<and>
   failing console (cmdline_n [''a:1'', ''x:1'', ''b:1'']) site_b \<and>
   FindHandlers (Plugins console) (args (cmdline_n [''a:1'', ''x:1'', ''b:1''])) ! 1 = [] \<and>
   Log ErrorLevel (FoundNoHandler ''x:1'')
     \<in> set (trace (snd (main console (cmdline_n [''a:1'', ''x:1'', ''b:1''])))) \<and>
   fst (main console (cmdline_n [''a:1'', ''x:1'', ''b:1''])) = Exited 1 \<and>
   downloaded (trace (snd (main console (cmdline_n [''a:1'', ''x:1'', ''b:1''])))) = [] \<and>
   fst (main console (cmdline [''b:1'', ''x:1'', ''b:2''])) = Exited 1 \<and>
   downloaded (trace (snd (main console (cmdline [''b:1'', ''x:1'', ''b:2''])))) = [''b:1'']"
  using no_handler_is_fatal [of "cmdline_n [''a:1'', ''x:1'', ''b:1'']" 1 console]
    no_handler_is_fatal [of "cmdline [''b:1'', ''x:1'', ''b:2'']" 1 console]
  by (simp add: run_defs example_defs)




text \<open>
  Claim C2, as stated, at the URLs \<open>a:boom\<close>, \<open>b:1\<close> with a download that panics with the
  value \<open>boom\<close> on \<open>a:boom\<close>: the process exits with status 1, its last action the fatal
  log of the panic, and \<^verbatim>\<open>Download\<close> is called for \<open>a:boom\<close> only, so the remaining URL
  \<open>b:1\<close>, which has a handler, is not processed.
\<close>

theorem panic_counterexample:
  "FindHandlers (Plugins console) (args (cmdline [''a:boom'', ''b:1''])) ! 1 = [site_b] \<and>
   fst (main console (cmdline [''a:boom'', ''b:1''])) = Exited 1 \<and>
   last (trace (snd (main console (cmdline [''a:boom'', ''b:1'']))))
     = Log FatalLevel (Panicked ''boom'') \<and>
   downloaded (trace (snd (main console (cmdline [''a:boom'', ''b:1''])))) = [''a:boom'']"
  by (simp add: run_defs example_defs)

text \<open>
  Claim C2, amended. A panic raised by the \<^verbatim>\<open>Download\<close> call of a run is recovered at the
  top of that run, after the reporter has been stopped and the line released. If the
  recovered value is not nil, the panic is logged as fatal and the process exits with
  status 1: the call, the stop, the release and the fatal log are the last actions, so
  no URL listed after that one is processed. If the recovered value is nil, nothing is
  logged and \<^verbatim>\<open>startDownloading\<close> returns; and in an invocation with URLs, without
  failing negotiation or selection, in which no \<^verbatim>\<open>Download\<close> call panics with a value
  that is not nil, \<^verbatim>\<open>main\<close> returns after \<^verbatim>\<open>Download\<close> has been called for every URL in
  order.
\<close>

theorem panic_is_fatal:
  "(CallDownload u p b \<in> set (trace (snd (main io fl))) \<longrightarrow>
    Download io p (normalize_dldir (PathSeparator io) (dldir fl)) b u
      (workers fl) (zipit fl) (override fl) = Panic (Some r) \<longrightarrow>
      fst (main io fl) = Exited 1 \<and>
      suffix [CallDownload u p b, StopReporter, ReleaseLine, Log FatalLevel (Panicked r)]
        (trace (snd (main io fl)))) \<and>
   (Download io p' (dldir fl') (bundles st p') u' (workers fl') (zipit fl') (override fl')
      = Panic None \<longrightarrow>
      startDownloading io fl' u' p' st =
        (Continue,
         st\<lparr>trace := trace st @ [CallDownload u' p' (bundles st p'), StopReporter, ReleaseLine]\<rparr>)) \<and>
   (\<not> printVersion fl \<longrightarrow> args fl \<noteq> [] \<longrightarrow>
    (\<forall>h\<in>set (FindHandlers (Plugins io) (args fl)).
        (\<forall>p\<in>set h. \<not> failing io fl p) \<and> \<not> isl (SelectPlugin io h)) \<longrightarrow>
    (\<forall>p dir b u w z ov r. Download io p dir b u w z ov \<noteq> Panic (Some r)) \<longrightarrow>
      fst (main io fl) = Continue \<and> downloaded (trace (snd (main io fl))) = args fl)"
proof (intro conjI impI)
  assume call: "CallDownload u p b \<in> set (trace (snd (main io fl)))"
    and panic: "Download io p (normalize_dldir (PathSeparator io) (dldir fl)) b u
                  (workers fl) (zipit fl) (override fl) = Panic (Some r)"
  have "fst (main io fl) = Exited 1 \<and>
      suffix [CallDownload u p b, StopReporter, ReleaseLine, Log FatalLevel (Panicked r)]
        (trace (snd (main io fl)))"
  proof (cases rule: main_cases [of fl io])
    case version
    with call show ?thesis by simp
  next
    case usage
    with call show ?thesis by simp
  next
    case (negotiation_failed st)
    from negotiate_all_result [OF negotiation_failed(3)]
    have "\<forall>e\<in>set (trace st). \<not> is_run e" by auto
    from is_run_CallDownload [OF this] call negotiation_failed(4) show ?thesis by simp
  next
    case (downloads st1 s st)
    from negotiate_all_result [OF downloads(3)]
    obtain a where a: "trace st1 = a" "\<forall>e\<in>set a. \<not> is_run e" by auto
    from panic have p': "Download io p (dldir (parsed io fl)) b u (workers (parsed io fl))
        (zipit (parsed io fl)) (override (parsed io fl)) = Panic (Some r)"
      by (simp add: parsed_def)
    from download_all_panic [OF downloads(4)] a(1)
    obtain evs where evs: "trace st = a @ evs"
      "\<forall>u p b r. CallDownload u p b \<in> set evs \<longrightarrow>
         Download io p (dldir (parsed io fl)) b u (workers (parsed io fl))
           (zipit (parsed io fl)) (override (parsed io fl)) = Panic (Some r) \<longrightarrow>
         s = Exited 1 \<and>
         suffix [CallDownload u p b, StopReporter, ReleaseLine, Log FatalLevel (Panicked r)] evs"
      by auto
    from call downloads(5) evs(1) is_run_CallDownload [OF a(2)]
    have "CallDownload u p b \<in> set evs" by simp
    with evs(2) p' have "s = Exited 1"
      "suffix [CallDownload u p b, StopReporter, ReleaseLine, Log FatalLevel (Panicked r)] evs"
      by blast+
    with downloads(5) evs(1) show ?thesis by (simp add: suffix_appendI)
  qed
  then show "fst (main io fl) = Exited 1"
    and "suffix [CallDownload u p b, StopReporter, ReleaseLine, Log FatalLevel (Panicked r)]
        (trace (snd (main io fl)))" by simp_all
next
  assume "Download io p' (dldir fl') (bundles st p') u' (workers fl') (zipit fl') (override fl')
      = Panic None"
  then show "startDownloading io fl' u' p' st =
        (Continue,
         st\<lparr>trace := trace st @ [CallDownload u' p' (bundles st p'), StopReporter, ReleaseLine]\<rparr>)"
    by (simp add: startDownloading_def emit_def)
next
  assume pv: "\<not> printVersion fl" and ne: "args fl \<noteq> []"
    and ok: "\<forall>h\<in>set (FindHandlers (Plugins io) (args fl)).
        (\<forall>p\<in>set h. \<not> failing io fl p) \<and> \<not> isl (SelectPlugin io h)"
    and quiet: "\<forall>p dir b u w z ov r. Download io p dir b u w z ov \<noteq> Panic (Some r)"
  from ok have nofail: "filter (failing io fl) (concat (map snd (candidates io fl))) = []"
    using failing_candidates [of io fl] by blast
  from ok have sel: "\<forall>z\<in>set (candidates io fl). \<not> isl (SelectPlugin io (snd z))"
    by (auto simp: candidates_def dest: set_zip_rightD)
  have "fst (main io fl) = Continue \<and> downloaded (trace (snd (main io fl))) = args fl"
  proof (cases rule: main_cases [of fl io])
    case version
    with pv show ?thesis by simp
  next
    case usage
    with ne show ?thesis by simp
  next
    case (negotiation_failed st)
    from negotiate_all_result [OF negotiation_failed(3)] nofail show ?thesis by auto
  next
    case (downloads st1 s st)
    from negotiate_all_result [OF downloads(3)]
    have nr: "\<forall>e\<in>set (trace st1). \<not> is_run e" by auto
    from download_all_completes [OF downloads(4) sel quiet]
    obtain evs where "s = Continue" "trace st = trace st1 @ evs"
      "downloaded evs = map fst (candidates io fl)" by auto
    with downloads(5) not_run_downloaded [OF nr] show ?thesis by simp
  qed
  then show "fst (main io fl) = Continue"
    and "downloaded (trace (snd (main io fl))) = args fl" by simp_all
qed

theorem panic_is_fatal_witness:
  "CallDownload ''a:boom'' site_a (Some Map.empty)
     \<in> set (trace (snd (main console (cmdline [''b:1'', ''a:boom'', ''b:2''])))) \<and>
   Download console site_a
     (normalize_dldir (PathSeparator console) (dldir (cmdline [''b:1'', ''a:boom'', ''b:2''])))
     (Some Map.empty) ''a:boom'' (workers (cmdline [''b:1'', ''a:boom'', ''b:2'']))
     (zipit (cmdline [''b:1'', ''a:boom'', ''b:2'']))
     (override (cmdline [''b:1'', ''a:boom'', ''b:2''])) = Panic (Some ''boom'') \<and>
   fst (main console (cmdline [''b:1'', ''a:boom'', ''b:2''])) = Exited 1 \<and>
   last (trace (snd (main console (cmdline [''b:1'', ''a:boom'', ''b:2'']))))
     = Log FatalLevel (Panicked ''boom'') \<and>
   downloaded (trace (snd (main console (cmdline [''b:1'', ''a:boom'', ''b:2'']))))
     = [''b:1'', ''a:boom''] \<and>
   Download quiet site_a (dldir (cmdline [''a:nil''])) (bundles init site_a) ''a:nil''
     (workers (cmdline [''a:nil''])) (zipit (cmdline [''a:nil'']))
     (override (cmdline [''a:nil''])) = Panic None \<and>
   fst (startDownloading quiet (cmdline [''a:nil'']) ''a:nil'' site_a init) = Continue \<and>
   trace (snd (startDownloading quiet (cmdline [''a:nil'']) ''a:nil'' site_a init))
     = [CallDownload ''a:nil'' site_a None, StopReporter, ReleaseLine] \<and>
   \<not> printVersion (cmdline [''b:1'', ''a:nil'', ''b:2'']) \<and>
   args (cmdline [''b:1'', ''a:nil'', ''b:2'']) \<noteq> [] \<and>
   list_all (\<lambda>h. list_all (\<lambda>p. \<not> failing quiet (cmdline [''b:1'', ''a:nil'', ''b:2'']) p) h \<and>
                \<not> isl (SelectPlugin quiet h))
     (FindHandlers (Plugins quiet) (args (cmdline [''b:1'', ''a:nil'', ''b:2'']))) \<and>
   (\<forall>p dir b u w z ov r. Download quiet p dir b u w z ov \<noteq> Panic (Some r)) \<and>
   fst (main quiet (cmdline [''b:1'', ''a:nil'', ''b:2''])) = Continue \<and>
   downloaded (trace (snd (main quiet (cmdline [''b:1'', ''a:nil'', ''b:2''])))) =
     [''b:1'', ''a:nil'', ''b:2'']"
  using panic_is_fatal [of "''a:boom''" site_a "Some Map.empty"
      console "cmdline [''b:1'', ''a:boom'', ''b:2'']" "''boom''"
      site_a "cmdline [''a:nil'']" init "''a:nil''"]
    panic_is_fatal [of "''a:boom''" site_a "Some Map.empty"
      quiet "cmdline [''b:1'', ''a:nil'', ''b:2'']" "''boom''"
      site_a "cmdline [''a:nil'']" init "''a:nil''"]
  by (simp add: run_defs example_defs quiet_def fetch_nil_def)

text \<open>
  Claim C7, as stated, at the URL \<open>b:1\<close> with \<^verbatim>\<open>--no-prompt\<close> and no \<^verbatim>\<open>-o\<close> option: the
  handler of \<open>b:1\<close> declares the required options \<open>user\<close> and \<open>token\<close>, neither with an
  override or a default, in this order. For the key \<open>token\<close> the premises of the claim
  hold, but the configuration error of the negotiation, which \<^verbatim>\<open>main\<close> logs as fatal,
  names \<open>user\<close>.
\<close>

theorem noPrompt_unresolved_counterexample:
  "noprompt (cmdline_n [''b:1'']) \<and>
   FindHandlers (Plugins console) (args (cmdline_n [''b:1''])) = [[site_b]] \<and>
   declaredOptions site_b = [opt_user, opt_quality, opt_token] \<and>
   opt_key opt_token = ''token'' \<and>
   opt_required opt_token \<and>
   unresolved (lookup (options (cmdline_n [''b:1''])))
     (defaults (cmdline_n [''b:1''])) opt_token \<and>
   negotiated console (cmdline_n [''b:1'']) site_b = Inl (ErrConfig ''user'') \<and>
   trace (snd (main console (cmdline_n [''b:1''])))
     = [CallSetOptions ''b:1'', Log FatalLevel (ErrorValue (ErrConfig ''user''))]"
  by (simp add: run_defs example_defs)

text \<open>
  Claim C7, amended. In an invocation with \<^verbatim>\<open>--no-prompt\<close> that is not a version request,
  let a candidate handler of some URL declare a required option that has no override
  and no default made usable by the defaults flag. Then the negotiation of that handler
  fails with the configuration error naming the first such key among its declared
  options (that key, when no other such option is declared before it); and \<^verbatim>\<open>main\<close>
  exits with status 1, its last action the fatal log of the configuration error of the
  first failing candidate, without any selection or call of \<^verbatim>\<open>Download\<close>.
\<close>

theorem noPrompt_unresolved_fails:
  assumes pv: "\<not> printVersion fl" and np: "noprompt fl"
    and h: "h \<in> set (FindHandlers (Plugins io) (args fl))" and p: "p \<in> set h"
    and d: "d \<in> set (declaredOptions p)"
    and u: "unresolved (lookup (options fl)) (defaults fl) d"
  shows "negotiated io fl p =
           Inl (ErrConfig (opt_key (hd (filter (unresolved (lookup (options fl)) (defaults fl))
             (declaredOptions p))))) \<and>
         fst (main io fl) = Exited 1 \<and>
         (\<forall>e\<in>set (trace (snd (main io fl))). \<not> is_run e) \<and>
         downloaded (trace (snd (main io fl))) = [] \<and>
         last (trace (snd (main io fl))) =
           Log FatalLevel (ErrorValue (ErrConfig (opt_key
             (hd (filter (unresolved (lookup (options fl)) (defaults fl))
               (declaredOptions (hd (filter (failing io fl)
                 (concat (FindHandlers (Plugins io) (args fl)))))))))))"
proof -
  let ?un = "unresolved (lookup (options fl)) (defaults fl)"
  let ?F = "filter (failing io fl) (concat (FindHandlers (Plugins io) (args fl)))"
  from d u have ne: "filter ?un (declaredOptions p) \<noteq> []"
    by (auto simp: filter_empty_conv)
  from negotiate_noPrompt_fails [OF ne] np
  have 2: "negotiated io fl p = Inl (ErrConfig (opt_key (hd (filter ?un (declaredOptions p)))))"
    by (simp add: negotiated_def)
  then have "failing io fl p" by (simp add: failing_def)
  with h p have F: "?F \<noteq> []" by (auto simp: filter_empty_conv)
  then have "hd ?F \<in> set ?F" by (rule hd_in_set)
  then have "failing io fl (hd ?F)" unfolding set_filter by blast
  then obtain e where e: "negotiated io fl (hd ?F) = Inl e"
    by (auto simp: failing_def isl_def)
  from e [unfolded negotiated_def negotiate_Inl_iff]
  have e': "e = ErrConfig (opt_key (hd (filter ?un (declaredOptions (hd ?F)))))" by simp
  have 3: "fst (main io fl) = Exited 1 \<and>
         (\<forall>e\<in>set (trace (snd (main io fl))). \<not> is_run e) \<and>
         last (trace (snd (main io fl))) = Log FatalLevel (ErrorValue e)"
  proof (cases rule: main_cases [of fl io])
    case version
    with pv show ?thesis by simp
  next
    case usage
    with h show ?thesis by (simp add: FindHandlers_def)
  next
    case (negotiation_failed st)
    from negotiate_all_result [OF negotiation_failed(3)] F e negotiation_failed(4)
    show ?thesis by auto
  next
    case (downloads st1 s st)
    from negotiate_all_result [OF downloads(3)] F show ?thesis by auto
  qed
  then have "downloaded (trace (snd (main io fl))) = []"
    using not_run_downloaded by blast
  with 2 3 e' show ?thesis by simp
qed

theorem noPrompt_unresolved_fails_witness:
  "\<not> printVersion (cmdline_n [''a:1'', ''b:1'']) \<and>
   noprompt (cmdline_n [''a:1'', ''b:1'']) \<and>
   [site_b] \<in> set (FindHandlers (Plugins console) (args (cmdline_n [''a:1'', ''b:1'']))) \<and>
   opt_user \<in> set (declaredOptions site_b) \<and>
   unresolved (lookup (options (cmdline_n [''a:1'', ''b:1''])))
     (defaults (cmdline_n [''a:1'', ''b:1''])) opt_user \<and>
   negotiated console (cmdline_n [''a:1'', ''b:1'']) site_b = Inl (ErrConfig ''user'') \<and>
   fst (main console (cmdline_n [''a:1'', ''b:1''])) = Exited 1 \<and>
   downloaded (trace (snd (main console (cmdline_n [''a:1'', ''b:1''])))) = [] \<and>
   last (trace (snd (main console (cmdline_n [''a:1'', ''b:1'']))))
     = Log FatalLevel (ErrorValue (ErrConfig ''user''))"
  using noPrompt_unresolved_fails [of "cmdline_n [''a:1'', ''b:1'']" "[site_b]" console site_b
      opt_user]
  by (simp add: run_defs example_defs)

end
